theory Spec2Isabelle
  imports Complex_Main "HOL-Library.Sublist"
begin

section \<open>JavaScript strings\<close>

text \<open>
  A JavaScript string is a sequence of UTF-16 code units. The model uses \<open>string\<close>
  (a \<open>char list\<close>), so it covers the strings whose code units are below 256
  (ASCII and the Latin-1 supplement); each \<open>char\<close> stands for the code unit of
  the same number.
\<close>

definition truthy :: "string \<Rightarrow> bool" where
  \<comment> \<open>A string is falsy exactly when it is empty.\<close>
  "truthy s = (s \<noteq> [])"

definition isSpace :: "char \<Rightarrow> bool" where
  \<comment> \<open>The class \<open>\s\<close> and the characters removed by \<open>trim\<close>: tab, LF, VT, FF, CR,
      space and the no-break space.\<close>
  "isSpace c = (c \<in> set [CHR 0x09, CHR 0x0A, CHR 0x0B, CHR 0x0C, CHR 0x0D, CHR 0x20, CHR 0xA0])"

definition isLineTerminator :: "char \<Rightarrow> bool" where
  \<comment> \<open>The line terminators: what \<open>.\<close> does not match, and where \<open>^\<close> and \<open>$\<close>
      match under the \<open>m\<close> flag.\<close>
  "isLineTerminator c = (c = CHR 0x0A \<or> c = CHR 0x0D)"

definition trim :: "string \<Rightarrow> string" where
  "trim s = rev (dropWhile isSpace (rev (dropWhile isSpace s)))"

definition toLowerChar :: "char \<Rightarrow> char" where
  \<comment> \<open>A-Z, and the capital letters of the Latin-1 supplement (0xC0-0xDE without the
      multiplication sign 0xD7), move up by 32.\<close>
  "toLowerChar c =
     (let n = (of_char c :: nat)
      in if (65 \<le> n \<and> n \<le> 90) \<or> (192 \<le> n \<and> n \<le> 222 \<and> n \<noteq> 215)
         then char_of (n + 32) else c)"

definition toLowerCase :: "string \<Rightarrow> string" where
  "toLowerCase s = map toLowerChar s"

fun startsWith :: "string \<Rightarrow> string \<Rightarrow> bool" where
  "startsWith s [] = True"
| "startsWith [] (p # ps) = False"
| "startsWith (c # cs) (p # ps) = (c = p \<and> startsWith cs ps)"

fun includes_str :: "string \<Rightarrow> string \<Rightarrow> bool" where
  \<comment> \<open>\<open>String.prototype.includes\<close>: the second string occurs somewhere in the first.\<close>
  "includes_str [] sub = (sub = [])"
| "includes_str (c # cs) sub = (startsWith (c # cs) sub \<or> includes_str cs sub)"

fun showDigits :: "nat \<Rightarrow> nat \<Rightarrow> string" where
  \<comment> \<open>The decimal digits of a number, most significant first; the first argument
      bounds the number of digits.\<close>
  "showDigits 0 n = []"
| "showDigits (Suc k) n =
     (if n < 10 then [char_of (48 + n)]
      else showDigits k (n div 10) @ [char_of (48 + n mod 10)])"

definition showNat :: "nat \<Rightarrow> string" where
  \<comment> \<open>A number interpolated into a template literal.\<close>
  "showNat n = showDigits (Suc n) n"

section \<open>Regular expressions\<close>

text \<open>
  A regular expression is modelled by the backtracking matcher it denotes: a function
  from the input at the current position to the list of ways it can match there,
  in the order in which the engine tries them. Each way is the value captured and the
  input that remains. The first element of the list is the match the engine reports.
\<close>

type_synonym 'a rx = "string \<Rightarrow> ('a \<times> string) list"

definition ret :: "'a \<Rightarrow> 'a rx" where
  "ret x s = [(x, s)]"

definition bindP :: "'a rx \<Rightarrow> ('a \<Rightarrow> 'b rx) \<Rightarrow> 'b rx" where
  \<comment> \<open>Concatenation: every way of matching the first part is continued by the second.\<close>
  "bindP p f s = concat (map (\<lambda>(x, r). f x r) (p s))"

definition thenP :: "unit rx \<Rightarrow> 'b rx \<Rightarrow> 'b rx" where
  "thenP p q = bindP p (\<lambda>_. q)"

definition lits :: "string \<Rightarrow> unit rx" where
  \<comment> \<open>A sequence of literal characters.\<close>
  "lits p s = (if startsWith s p then [((), drop (length p) s)] else [])"

definition splitsAt :: "nat list \<Rightarrow> string \<Rightarrow> (string \<times> string) list" where
  "splitsAt ks s = map (\<lambda>k. (take k s, drop k s)) ks"

definition manyG :: "(char \<Rightarrow> bool) \<Rightarrow> string rx" where
  \<comment> \<open>\<open>[...]*\<close>, greedy: the longest run of the class first, then every shorter one.\<close>
  "manyG P s = splitsAt (rev [0 ..< Suc (length (takeWhile P s))]) s"

definition many1G :: "(char \<Rightarrow> bool) \<Rightarrow> string rx" where
  \<comment> \<open>\<open>[...]+\<close>, greedy: as \<open>manyG\<close>, at least one character.\<close>
  "many1G P s = splitsAt (rev [1 ..< Suc (length (takeWhile P s))]) s"

definition manyL :: "(char \<Rightarrow> bool) \<Rightarrow> string rx" where
  \<comment> \<open>\<open>[...]*?\<close>, lazy: the shortest run first.\<close>
  "manyL P s = splitsAt [0 ..< Suc (length (takeWhile P s))] s"

definition optG :: "'a rx \<Rightarrow> 'a option rx" where
  \<comment> \<open>\<open>(?:...)?\<close>, greedy: with the group first, then without it.\<close>
  "optG p s = map (\<lambda>(x, r). (Some x, r)) (p s) @ [(None, s)]"

definition endOfLine :: "unit rx" where
  \<comment> \<open>\<open>$\<close> under the \<open>m\<close> flag: the end of the input, or before a line terminator.\<close>
  "endOfLine s = (case s of [] \<Rightarrow> [((), s)] | c # _ \<Rightarrow> if isLineTerminator c then [((), s)] else [])"

definition endOfInput :: "unit rx" where
  \<comment> \<open>\<open>$\<close> without the \<open>m\<close> flag.\<close>
  "endOfInput s = (if s = [] then [((), s)] else [])"

definition matchAt :: "'a rx \<Rightarrow> string \<Rightarrow> ('a \<times> string) option" where
  \<comment> \<open>The match the engine reports at this position, if any.\<close>
  "matchAt p s = (case p s of [] \<Rightarrow> None | m # _ \<Rightarrow> Some m)"

fun firstMatch :: "'a rx \<Rightarrow> string \<Rightarrow> 'a option" where
  \<comment> \<open>\<open>String.prototype.match\<close> with a regular expression without the \<open>g\<close> flag: the
      leftmost position at which the expression matches.\<close>
  "firstMatch p [] = map_option fst (matchAt p [])"
| "firstMatch p (c # cs) =
     (case matchAt p (c # cs) of Some m \<Rightarrow> Some (fst m) | None \<Rightarrow> firstMatch p cs)"

text \<open>
  The loop \<open>while ((match = re.exec(s)) !== null)\<close> over a regular expression with the
  \<open>g\<close> flag: the matches from left to right, each search starting where the match
  before it ended. The flag \<open>bol\<close> says whether the position is at the start of a
  line (the start of the input, or after a line terminator); the matcher of an
  expression starting with \<open>^\<close> under the \<open>m\<close> flag is given only at such positions.
  The loop ends when \<open>exec\<close> returns null, which sets \<open>lastIndex\<close> back to 0, so
  every call of the extractor starts each expression at position 0. A match that
  consumes nothing would keep \<open>lastIndex\<close> where it is and the source's loop would
  not end; none of the expressions below can match the empty string, and the model
  stops there.
\<close>

function execAll :: "bool \<Rightarrow> 'a rx \<Rightarrow> bool \<Rightarrow> string \<Rightarrow> 'a list" where
  "execAll anchored p bol s =
     (case (if anchored \<and> \<not> bol then None else matchAt p s) of
        Some (x, r) \<Rightarrow>
          if length r < length s
          then x # execAll anchored p (isLineTerminator (s ! (length s - length r - 1))) r
          else [x]
      | None \<Rightarrow>
          (case s of [] \<Rightarrow> [] | c # cs \<Rightarrow> execAll anchored p (isLineTerminator c) cs))"
  by pat_completeness auto
termination
  by (relation "measure (\<lambda>(a, p, b, s). length s)") auto

declare execAll.simps [simp del]

section \<open>The reference extractor (parser.js)\<close>

record entry =
  action :: "string option"
  path :: string
  sourcePath :: "string option"
  alt :: "string option"
  operation :: "string option"
  user :: "string option"

text \<open>
  An entry is a JavaScript object; a field that the object does not have is \<open>None\<close>.
  The record is extensible: the fields that other producers of entries set (owner,
  repo, contentType, width, height, ...) live in the \<open>more\<close> part, which the passes
  below carry along as the object spread \<open>{ ...entry }\<close> does.
\<close>

definition VIDEO_EXTENSIONS :: "string list" where
  "VIDEO_EXTENSIONS = [''.mp4'', ''.mov'', ''.webm'', ''.avi'', ''.m4v'', ''.mkv'']"

definition DOC_EXTENSIONS :: "string list" where
  "DOC_EXTENSIONS = [''.pdf'', ''.doc'', ''.docx'', ''.xls'', ''.xlsx'', ''.ppt'', ''.pptx'', ''.txt'']"

definition notRBracket :: "char \<Rightarrow> bool" where
  \<comment> \<open>\<open>[^\]]\<close>\<close>
  "notRBracket c = (c \<noteq> CHR '']'')"

definition urlChar :: "char \<Rightarrow> bool" where
  \<comment> \<open>\<open>[^\s"')]\<close>\<close>
  "urlChar c = (\<not> isSpace c \<and> c \<noteq> CHR 0x22 \<and> c \<noteq> CHR 0x27 \<and> c \<noteq> CHR '')'')"

definition defUrlChar :: "char \<Rightarrow> bool" where
  \<comment> \<open>\<open>[^\s"]\<close>\<close>
  "defUrlChar c = (\<not> isSpace c \<and> c \<noteq> CHR 0x22)"

definition notQuote :: "char \<Rightarrow> bool" where
  \<comment> \<open>\<open>[^"]\<close>\<close>
  "notQuote c = (c \<noteq> CHR 0x22)"

definition titlePart :: "string rx" where
  \<comment> \<open>\<open>\s+"([^"]+)"\<close>, the body of the optional group of three of the expressions.\<close>
  "titlePart =
     thenP (bindP (many1G isSpace) (\<lambda>_. ret ())) (thenP (lits [CHR 0x22])
       (bindP (many1G notQuote) (\<lambda>title. thenP (lits [CHR 0x22]) (ret title))))"

definition MARKDOWN_IMAGE_INLINE_REGEX :: "(string \<times> string \<times> string option) rx" where
  \<comment> \<open>\<open>/!\[([^\]]*)\]\(([^\s"')]+)(?:\s+"([^"]+)")?\)/g\<close>;
      the groups are the alt text, the url and the optional title.\<close>
  "MARKDOWN_IMAGE_INLINE_REGEX =
     thenP (lits ''!['') (bindP (manyG notRBracket) (\<lambda>altText.
     thenP (lits '']('') (bindP (many1G urlChar) (\<lambda>url.
     bindP (optG titlePart) (\<lambda>title.
     thenP (lits '')'') (ret (altText, url, title)))))))"

definition MARKDOWN_IMAGE_REFERENCE_REGEX :: "(string \<times> string) rx" where
  \<comment> \<open>\<open>/!\[([^\]]*)\]\[([^\]]+)\]/g\<close>; the groups are the alt text and the reference id.\<close>
  "MARKDOWN_IMAGE_REFERENCE_REGEX =
     thenP (lits ''!['') (bindP (manyG notRBracket) (\<lambda>altText.
     thenP (lits '']['') (bindP (many1G notRBracket) (\<lambda>refId.
     thenP (lits '']'') (ret (altText, refId))))))"

definition MARKDOWN_REFERENCE_DEFINITION_REGEX :: "(string \<times> string \<times> string option) rx" where
  \<comment> \<open>\<open>/^\[([^\]]+)\]:\s*([^\s"]+)(?:\s+"([^"]+)")?$/gm\<close>; the groups are the reference
      id, the url and the optional title. The leading \<open>^\<close> is the \<open>anchored\<close> flag of
      \<open>execAll\<close>.\<close>
  "MARKDOWN_REFERENCE_DEFINITION_REGEX =
     thenP (lits ''['') (bindP (many1G notRBracket) (\<lambda>refId.
     thenP (lits '']:'') (thenP (bindP (manyG isSpace) (\<lambda>_. ret ()))
     (bindP (many1G defUrlChar) (\<lambda>url.
     bindP (optG titlePart) (\<lambda>title.
     thenP endOfLine (ret (refId, url, title))))))))"

definition MARKDOWN_LINK_REGEX :: "(string \<times> string \<times> string option) rx" where
  \<comment> \<open>\<open>/\[([^\]]*)\]\(([^\s"')]+)(?:\s+"([^"]+)")?\)/g\<close>;
      the groups are the link text, the url and the optional title.\<close>
  "MARKDOWN_LINK_REGEX =
     thenP (lits ''['') (bindP (manyG notRBracket) (\<lambda>linkText.
     thenP (lits '']('') (bindP (many1G urlChar) (\<lambda>url.
     bindP (optG titlePart) (\<lambda>title.
     thenP (lits '')'') (ret (linkText, url, title)))))))"

definition isNonImageMedia :: "string \<Rightarrow> bool" where
  "isNonImageMedia url =
     (let lowerUrl = toLowerCase url
      in list_ex (\<lambda>ext. includes_str lowerUrl ext) VIDEO_EXTENSIONS
         \<or> list_ex (\<lambda>ext. includes_str lowerUrl ext) DOC_EXTENSIONS)"

text \<open>
  The state of one call of the extractor: the array \<open>mediaRefs\<close> and the set \<open>seen\<close>.
  \<open>addMedia\<close> is the closure of that name; \<open>sourceUrl\<close> is the variable it captures.
\<close>

type_synonym extractor_state = "entry list \<times> string set"

definition mediaEntry :: "string \<Rightarrow> string \<Rightarrow> string \<Rightarrow> entry" where
  \<comment> \<open>The object \<open>addMedia\<close> builds: \<open>alt\<close> is set only when the alt text and its
      trimmed form are not empty.\<close>
  "mediaEntry sourceUrl p altText =
     \<lparr> action = Some ''add'', path = p, sourcePath = Some sourceUrl,
       alt = (if truthy altText \<and> truthy (trim altText) then Some (trim altText) else None),
       operation = None, user = None \<rparr>"

definition addMedia :: "string \<Rightarrow> string \<Rightarrow> string \<Rightarrow> extractor_state \<Rightarrow> extractor_state" where
  "addMedia sourceUrl p altText st =
     (case st of (mediaRefs, seen) \<Rightarrow>
        if p \<in> seen then (mediaRefs, seen)
        else (mediaRefs @ [mediaEntry sourceUrl p altText], insert p seen))"

definition orElse :: "string option \<Rightarrow> string \<Rightarrow> string" where
  \<comment> \<open>\<open>title || altText\<close>, where the title is undefined when its group did not take part
      in the match.\<close>
  "orElse title altText = (case title of Some t \<Rightarrow> if truthy t then t else altText | None \<Rightarrow> altText)"

type_synonym reference_map = "string \<rightharpoonup> (string \<times> string option)"

definition setReference :: "reference_map \<Rightarrow> (string \<times> string \<times> string option) \<Rightarrow> reference_map" where
  \<comment> \<open>The body of the first loop: \<open>references.set(refId.toLowerCase(), { url: url.trim(), title })\<close>.\<close>
  "setReference references m =
     (case m of (refId, url, title) \<Rightarrow> references(toLowerCase refId \<mapsto> (trim url, title)))"

definition inlineStep :: "string \<Rightarrow> extractor_state \<Rightarrow> (string \<times> string \<times> string option) \<Rightarrow> extractor_state" where
  \<comment> \<open>The body of the loop over the inline images.\<close>
  "inlineStep sourceUrl st m =
     (case m of (altText, url, title) \<Rightarrow>
        if truthy url \<and> truthy (trim url) then addMedia sourceUrl url (orElse title altText) st
        else st)"

definition referenceStep :: "string \<Rightarrow> reference_map \<Rightarrow> extractor_state \<Rightarrow> (string \<times> string) \<Rightarrow> extractor_state" where
  \<comment> \<open>The body of the loop over the reference-style images.\<close>
  "referenceStep sourceUrl references st m =
     (case m of (altText, refId) \<Rightarrow>
        (case references (toLowerCase refId) of
           Some (url, title) \<Rightarrow> addMedia sourceUrl url (orElse title altText) st
         | None \<Rightarrow> st))"

definition linkStep :: "string \<Rightarrow> extractor_state \<Rightarrow> (string \<times> string \<times> string option) \<Rightarrow> extractor_state" where
  \<comment> \<open>The body of the loop over the plain links; \<open>addMedia(url)\<close> takes the default
      alt text, the empty string.\<close>
  "linkStep sourceUrl st m =
     (case m of (linkText, url, title) \<Rightarrow>
        if isNonImageMedia url then addMedia sourceUrl url [] st else st)"

definition extractMediaReferences :: "string \<Rightarrow> string \<Rightarrow> string \<Rightarrow> string \<Rightarrow> string \<Rightarrow> entry list" where
  "extractMediaReferences markdown srcPath org repo ref =
     (let sourceUrl = ''https://'' @ ref @ ''--'' @ repo @ ''--'' @ org @ ''.aem.page'' @ srcPath;
          references = foldl setReference Map.empty
                         (execAll True MARKDOWN_REFERENCE_DEFINITION_REGEX True markdown);
          st1 = foldl (inlineStep sourceUrl) ([], {})
                  (execAll False MARKDOWN_IMAGE_INLINE_REGEX True markdown);
          st2 = foldl (referenceStep sourceUrl references) st1
                  (execAll False MARKDOWN_IMAGE_REFERENCE_REGEX True markdown);
          st3 = foldl (linkStep sourceUrl) st2
                  (execAll False MARKDOWN_LINK_REGEX True markdown)
      in fst st3)"

definition hexDigit :: "char \<Rightarrow> bool" where
  \<comment> \<open>\<open>[a-f0-9]\<close>\<close>
  "hexDigit c = (c \<in> set ''abcdef0123456789'')"

definition MEDIA_HASH_REGEX :: "string rx" where
  \<comment> \<open>\<open>/media_([a-f0-9]+)\./\<close>\<close>
  "MEDIA_HASH_REGEX =
     thenP (lits ''media_'') (bindP (many1G hexDigit) (\<lambda>hash. thenP (lits ''.'') (ret hash)))"

definition extractMediaHash :: "string \<Rightarrow> string option" where
  \<comment> \<open>\<open>null\<close> is \<open>None\<close>.\<close>
  "extractMediaHash url = firstMatch MEDIA_HASH_REGEX url"

text \<open>
  \<open>batchEntries\<close> is a \<open>for\<close> loop whose counter moves by \<open>batchSize\<close>; with a batch size
  that is not positive the counter never passes the length, so the loop is a partial
  function and not returning is the value \<open>None\<close>. Numbers are integers here
  (\<open>NaN\<close>, which \<open>parseInt\<close> returns for a text that is no number, is not modelled).
\<close>

definition slice :: "'a list \<Rightarrow> int \<Rightarrow> int \<Rightarrow> 'a list" where
  \<comment> \<open>\<open>Array.prototype.slice\<close>: a negative index counts from the end, and both indices
      are clamped to the array.\<close>
  "slice xs start finish =
     (let len = int (length xs);
          k = (if start < 0 then max (len + start) 0 else min start len);
          final = (if finish < 0 then max (len + finish) 0 else min finish len)
      in take (nat (final - k)) (drop (nat k) xs))"

partial_function (option) batchLoop :: "'a list \<Rightarrow> int \<Rightarrow> int \<Rightarrow> 'a list list \<Rightarrow> 'a list list option" where
  "batchLoop entries batchSize i batches =
     (if i < int (length entries)
      then batchLoop entries batchSize (i + batchSize) (batches @ [slice entries i (i + batchSize)])
      else Some batches)"

declare batchLoop.simps [code]

definition batchEntries :: "'a list \<Rightarrow> int \<Rightarrow> 'a list list option" where
  "batchEntries entries batchSize = batchLoop entries batchSize 0 []"

section \<open>Deduplication (cli.js, runIngest)\<close>

text \<open>
  The callback of \<open>allEntries.map\<close> and the variables it updates. The callback reads the
  set \<open>seenHashes\<close> and the two counters and returns \<open>{ ...entry, operation }\<close>.
\<close>

record dedup_state =
  seenHashes :: "string set"
  ingestCount :: nat
  reuseCount :: nat

definition dedupStep :: "dedup_state \<Rightarrow> 'a entry_scheme \<Rightarrow> 'a entry_scheme \<times> dedup_state" where
  "dedupStep st e =
     (case extractMediaHash (path e) of
        Some hash \<Rightarrow>
          if truthy hash then
            if hash \<in> seenHashes st
            then (e\<lparr>operation := Some ''reuse''\<rparr>, st\<lparr>reuseCount := reuseCount st + 1\<rparr>)
            else (e\<lparr>operation := Some ''ingest''\<rparr>,
                  st\<lparr>seenHashes := insert hash (seenHashes st), ingestCount := ingestCount st + 1\<rparr>)
          else (e\<lparr>operation := Some ''ingest''\<rparr>, st\<lparr>ingestCount := ingestCount st + 1\<rparr>)
      | None \<Rightarrow> (e\<lparr>operation := Some ''ingest''\<rparr>, st\<lparr>ingestCount := ingestCount st + 1\<rparr>))"

fun mapWithState :: "('s \<Rightarrow> 'a \<Rightarrow> 'b \<times> 's) \<Rightarrow> 's \<Rightarrow> 'a list \<Rightarrow> 'b list \<times> 's" where
  \<comment> \<open>\<open>Array.prototype.map\<close> with a callback that updates variables of its closure.\<close>
  "mapWithState f st [] = ([], st)"
| "mapWithState f st (x # xs) =
     (case f st x of (y, st') \<Rightarrow>
        (case mapWithState f st' xs of (ys, st'') \<Rightarrow> (y # ys, st'')))"

definition deduplicatedEntries :: "'a entry_scheme list \<Rightarrow> 'a entry_scheme list" where
  "deduplicatedEntries allEntries =
     fst (mapWithState dedupStep \<lparr>seenHashes = {}, ingestCount = 0, reuseCount = 0\<rparr> allEntries)"

section \<open>The remote services\<close>

text \<open>
  \<open>fetch\<close> either rejects with an error or resolves to a response. The services are
  a parameter of the model: a function from the number of requests made so far and the
  url requested to the outcome of the request. Since the program is deterministic, the
  request number fixes the method, the headers and the body sent, so this covers every
  behaviour of a server. \<open>response.ok\<close> is the status being in 200-299. The field
  \<open>json\<close> is what \<open>response.json()\<close> resolves to; it is \<open>None\<close> when the call
  rejects or the body is not an object, in which case reading the page throws.
\<close>

datatype js_error = Error (message: string)

record log_event =
  event_route :: "string option"
  event_path :: "string option"
  event_user :: "string option"

record log_page =
  page_entries :: "log_event list option"
  links_next :: "string option"

record response =
  status :: nat
  body_text :: string
  json :: "log_page option"

definition ok :: "response \<Rightarrow> bool" where
  "ok r = (200 \<le> status r \<and> status r \<le> 299)"

type_synonym net = "nat \<Rightarrow> string \<Rightarrow> js_error + response"

definition truthyOpt :: "string option \<Rightarrow> bool" where
  \<comment> \<open>An optional string is truthy when it is there and is not empty.\<close>
  "truthyOpt v = (case v of Some s \<Rightarrow> truthy s | None \<Rightarrow> False)"

section \<open>Delivery (ingestor.js and the delivery loop of cli.js)\<close>

text \<open>
  The failure file \<open>failed-entries.json\<close>. \<open>readFile\<close> fails with \<open>ENOENT\<close>
  when the file is missing; it can fail with another error, and \<open>JSON.parse\<close> can
  throw or return something that is not an array (so that \<open>push\<close> throws): these are
  the case \<open>Unusable\<close>. Otherwise the file holds a list of records.
\<close>

record 'b failed_entry =
  timestamp :: string
  error :: string
  entries :: "'b list"

datatype 'b failure_file = Missing | Unusable | Holds "'b failed_entry list"

text \<open>
  What the delivery acts on: the number of requests made so far, the waits made so far
  (in milliseconds, in order), the failure file, whether \<open>writeFile\<close> fails, what a
  failed write leaves in the file, and the text \<open>new Date().toISOString()\<close> returns.
  \<open>fs.writeFile\<close> opens the file with the flag \<open>w\<close>, which empties it, and then
  writes: a write that fails at the open leaves the file as it was, one that fails
  later leaves it empty or with a part of the text, which \<open>JSON.parse\<close> does not
  accept. So what a failed write leaves is a parameter, and it can be any state of
  the file.
\<close>

record 'b world =
  requests :: nat
  sleeps :: "nat list"
  failureFile :: "'b failure_file"
  writeFails :: bool
  fileAfterFailedWrite :: "'b failure_file"
  clock :: string

definition sleep :: "nat \<Rightarrow> 'b world \<Rightarrow> 'b world" where
  "sleep ms w = w\<lparr>sleeps := sleeps w @ [ms]\<rparr>"

definition MEDIALOG_API :: string where
  "MEDIALOG_API = ''https://admin.hlx.page/medialog''"

definition LOG_API :: string where
  "LOG_API = ''https://admin.hlx.page/log''"

datatype send_result = Success (dryRunResult: bool) (resultStatus: nat) | Null

text \<open>
  The \<open>for\<close> loop of \<open>sendMediaLogBatch\<close>, from the attempt given. A thrown error is
  \<open>Inl\<close>; an error with which \<open>fetch\<close> rejects is thrown as it is. The text of
  the body is taken as read with the response. \<open>Null\<close> is the \<open>return null\<close> after
  the loop.
\<close>

function sendLoop :: "net \<Rightarrow> string \<Rightarrow> nat \<Rightarrow> nat \<Rightarrow> 'b world \<Rightarrow> (js_error + send_result) \<times> 'b world" where
  "sendLoop fetch url maxRetries attempt w =
     (if attempt \<le> maxRetries then
        (case fetch (requests w) url of
           Inl e \<Rightarrow> (Inl e, w\<lparr>requests := Suc (requests w)\<rparr>)
         | Inr response \<Rightarrow>
             (let w1 = w\<lparr>requests := Suc (requests w)\<rparr>
              in if ok response then (Inr (Success False (status response)), w1)
                 else if (status response = 403 \<or> status response = 429) \<and> attempt < maxRetries
                 then sendLoop fetch url maxRetries (Suc attempt) (sleep (2 ^ attempt * 1000) w1)
                 else (Inl (Error (''Media log API error: '' @ showNat (status response)
                                     @ '' - '' @ body_text response)), w1)))
      else (Inr Null, w))"
  by pat_completeness auto
termination
  by (relation "measure (\<lambda>(f, u, maxRetries, attempt, w). Suc maxRetries - attempt)") auto

declare sendLoop.simps [simp del]

definition sendMediaLogBatch ::
  "net \<Rightarrow> string \<Rightarrow> string \<Rightarrow> string \<Rightarrow> bool \<Rightarrow> nat \<Rightarrow> 'b world \<Rightarrow> (js_error + send_result) \<times> 'b world" where
  "sendMediaLogBatch fetch org repo ref dryRun maxRetries w =
     (if dryRun then (Inr (Success True 200), w)
      else sendLoop fetch (MEDIALOG_API @ ''/'' @ org @ ''/'' @ repo @ ''/'' @ ref @ ''/'') maxRetries 0 w)"

definition writeFile :: "'b failed_entry list \<Rightarrow> 'b world \<Rightarrow> 'b world" where
  \<comment> \<open>The write throws when it fails; the throw is caught by the caller below.\<close>
  "writeFile content w =
     (if writeFails w then w\<lparr>failureFile := fileAfterFailedWrite w\<rparr>
      else w\<lparr>failureFile := Holds content\<rparr>)"

definition saveFailedBatch :: "'b list \<Rightarrow> js_error \<Rightarrow> 'b world \<Rightarrow> 'b world" where
  \<comment> \<open>Every error of the reading, the parsing and the writing ends in the outer
      \<open>catch\<close>, which prints a message.\<close>
  "saveFailedBatch batch err w =
     (let failedEntry = \<lparr>timestamp = clock w, error = message err, entries = batch\<rparr>
      in case failureFile w of
           Missing \<Rightarrow> writeFile ([] @ [failedEntry]) w
         | Holds existing \<Rightarrow> writeFile (existing @ [failedEntry]) w
         | Unusable \<Rightarrow> w)"

record stats =
  batchesSent :: nat
  errors :: nat

text \<open>
  The delivery updates these two counters of the object \<open>stats\<close>; its other
  counters are in the extension of the record.
\<close>

text \<open>
  One turn of the loop \<open>for (const [index, batch] of batches.entries())\<close>, and the loop
  from the index given; \<open>numBatches\<close> is \<open>batches.length\<close>. The call takes the default for
  \<open>maxRetries\<close>, which is 3.
\<close>

definition deliverBatch ::
  "net \<Rightarrow> string \<Rightarrow> string \<Rightarrow> string \<Rightarrow> bool \<Rightarrow> nat \<Rightarrow> nat \<Rightarrow> 'b list \<Rightarrow> 's stats_scheme \<times> 'b world \<Rightarrow> 's stats_scheme \<times> 'b world" where
  "deliverBatch fetch org repo ref dryRun numBatches index batch sw =
     (case sw of (st, w) \<Rightarrow>
        (case sendMediaLogBatch fetch org repo ref dryRun 3 w of
           (Inr _, w1) \<Rightarrow>
             (st\<lparr>batchesSent := batchesSent st + 1\<rparr>,
              if int index < int numBatches - 1 \<and> \<not> dryRun then sleep 100 w1 else w1)
         | (Inl err, w1) \<Rightarrow>
             (st\<lparr>errors := errors st + 1\<rparr>, saveFailedBatch batch err w1)))"

fun deliverFrom ::
  "net \<Rightarrow> string \<Rightarrow> string \<Rightarrow> string \<Rightarrow> bool \<Rightarrow> nat \<Rightarrow> nat \<Rightarrow> 'b list list \<Rightarrow> 's stats_scheme \<times> 'b world \<Rightarrow> 's stats_scheme \<times> 'b world" where
  "deliverFrom fetch org repo ref dryRun numBatches index [] sw = sw"
| "deliverFrom fetch org repo ref dryRun numBatches index (batch # rest) sw =
     deliverFrom fetch org repo ref dryRun numBatches (Suc index) rest
       (deliverBatch fetch org repo ref dryRun numBatches index batch sw)"

definition deliver ::
  "net \<Rightarrow> string \<Rightarrow> string \<Rightarrow> string \<Rightarrow> bool \<Rightarrow> 'b list list \<Rightarrow> 's stats_scheme \<times> 'b world \<Rightarrow> 's stats_scheme \<times> 'b world" where
  "deliver fetch org repo ref dryRun batches sw =
     deliverFrom fetch org repo ref dryRun (length batches) 0 batches sw"

section \<open>The user index and the enrichment (ingestor.js)\<close>

type_synonym user_map = "string \<rightharpoonup> string"

definition insertEvent :: "user_map \<Rightarrow> log_event \<Rightarrow> user_map" where
  \<comment> \<open>The body of \<open>for (const entry of entries)\<close>.\<close>
  "insertEvent userMap entry =
     (if event_route entry = Some ''preview'' \<and> truthyOpt (event_path entry) \<and> truthyOpt (event_user entry)
      then (if userMap (the (event_path entry)) = None
            then userMap(the (event_path entry) \<mapsto> the (event_user entry))
            else userMap)
      else userMap)"

definition pageEvents :: "log_page \<Rightarrow> log_event list" where
  \<comment> \<open>\<open>data.entries || []\<close>\<close>
  "pageEvents data = (case page_entries data of Some es \<Rightarrow> es | None \<Rightarrow> [])"

text \<open>
  The loop \<open>while (hasMore)\<close>, from the request number, url and map given. It runs for
  as long as the service answers with pages that have a next link, so it is a partial
  function: not returning is \<open>None\<close>. It ends with the map and, when something was
  thrown inside the \<open>try\<close> block, the error thrown. The map is updated in place, so
  what was inserted before a throw stays.
\<close>

partial_function (option) fetchPages :: "net \<Rightarrow> nat \<Rightarrow> string \<Rightarrow> user_map \<Rightarrow> (user_map \<times> js_error option) option" where
  "fetchPages fetch n url userMap =
     (case fetch n url of
        Inl e \<Rightarrow> Some (userMap, Some e)
      | Inr response \<Rightarrow>
          if \<not> ok response then Some (userMap, None)
          else
            (case json response of
               None \<Rightarrow> Some (userMap, Some (Error ''invalid json response body''))
             | Some data \<Rightarrow>
                 if truthyOpt (links_next data)
                 then fetchPages fetch (Suc n) (the (links_next data))
                        (foldl insertEvent userMap (pageEvents data))
                 else Some (foldl insertEvent userMap (pageEvents data), None)))"

declare fetchPages.simps [code]

definition buildPreviewUserMap :: "net \<Rightarrow> string \<Rightarrow> string \<Rightarrow> string \<Rightarrow> (js_error + user_map) option" where
  \<comment> \<open>The \<open>catch\<close> block prints the error when \<open>verbose\<close> is set and does nothing else;
      the function returns the map on both paths. \<open>Inl\<close> would be an error thrown to
      the caller.\<close>
  "buildPreviewUserMap fetch org repo ref =
     (case fetchPages fetch 0
             (LOG_API @ ''/'' @ org @ ''/'' @ repo @ ''/'' @ ref @ ''/?since=30d&limit=1000'') Map.empty of
        None \<Rightarrow> None
      | Some (userMap, thrown) \<Rightarrow> Some (Inr userMap))"

definition notLineTerminator :: "char \<Rightarrow> bool" where
  \<comment> \<open>\<open>.\<close>\<close>
  "notLineTerminator c = (\<not> isLineTerminator c)"

definition AEM_PAGE_REGEX :: "string rx" where
  \<comment> \<open>\<open>/\.aem\.page(\/.*?)$/\<close>; the value is group 1.\<close>
  "AEM_PAGE_REGEX =
     thenP (lits ''.aem.page'') (thenP (lits ''/'') (bindP (manyL notLineTerminator) (\<lambda>rest.
     thenP endOfInput (ret (''/'' @ rest)))))"

definition enrichEntry :: "user_map \<Rightarrow> string option \<Rightarrow> 'a entry_scheme \<Rightarrow> 'a entry_scheme" where
  \<comment> \<open>The callback of \<open>entries.map\<close>; \<open>enriched = { ...entry }\<close>. The three counters it
      updates are only printed and are left out.\<close>
  "enrichEntry previewUserMap fallbackUser entry =
     (if truthyOpt (sourcePath entry) then
        (case firstMatch AEM_PAGE_REGEX (the (sourcePath entry)) of
           Some srcPath \<Rightarrow>
             if truthyOpt (previewUserMap srcPath) then entry\<lparr>user := previewUserMap srcPath\<rparr>
             else if truthyOpt fallbackUser then entry\<lparr>user := fallbackUser\<rparr>
             else entry
         | None \<Rightarrow>
             if truthyOpt fallbackUser then entry\<lparr>user := fallbackUser\<rparr> else entry)
      else if truthyOpt fallbackUser then entry\<lparr>user := fallbackUser\<rparr>
      else entry)"

definition enrichEntriesWithUser ::
  "net \<Rightarrow> 'a entry_scheme list \<Rightarrow> string \<Rightarrow> string \<Rightarrow> string \<Rightarrow> string option \<Rightarrow> (js_error + 'a entry_scheme list) option" where
  "enrichEntriesWithUser fetch entryList org repo ref fallbackUser =
     (case buildPreviewUserMap fetch org repo ref of
        None \<Rightarrow> None
      | Some (Inl e) \<Rightarrow> Some (Inl e)
      | Some (Inr previewUserMap) \<Rightarrow> Some (Inr (map (enrichEntry previewUserMap fallbackUser) entryList)))"

section \<open>Notions used in the statements below\<close>

definition hashOf :: "'a entry_scheme \<Rightarrow> string option" where
  \<comment> \<open>The content hash of a record: what \<open>extractMediaHash\<close> finds in its path.\<close>
  "hashOf e = extractMediaHash (path e)"

definition withHash :: "string \<Rightarrow> 'a entry_scheme list \<Rightarrow> 'a entry_scheme list" where
  \<comment> \<open>The records with a given content hash, in the order of the list.\<close>
  "withHash h es = filter (\<lambda>e. hashOf e = Some h) es"

definition firstSeen :: "'a entry_scheme \<Rightarrow> bool" where
  "firstSeen e = (operation e = Some ''ingest'')"

definition reused :: "'a entry_scheme \<Rightarrow> bool" where
  "reused e = (operation e = Some ''reuse'')"

definition sameButOperation :: "'a entry_scheme \<Rightarrow> 'a entry_scheme \<Rightarrow> bool" where
  \<comment> \<open>The two records agree on every field other than \<open>operation\<close>.\<close>
  "sameButOperation e e' =
     (action e' = action e \<and> path e' = path e \<and> sourcePath e' = sourcePath e \<and> alt e' = alt e
      \<and> user e' = user e \<and> entry.more e' = entry.more e)"

definition sameButUser :: "'a entry_scheme \<Rightarrow> 'a entry_scheme \<Rightarrow> bool" where
  \<comment> \<open>The two records agree on every field other than \<open>user\<close>.\<close>
  "sameButUser e e' =
     (action e' = action e \<and> path e' = path e \<and> sourcePath e' = sourcePath e \<and> alt e' = alt e
      \<and> operation e' = operation e \<and> entry.more e' = entry.more e)"

definition referenceIndex :: "string \<Rightarrow> reference_map" where
  \<comment> \<open>The map \<open>references\<close> after the first loop of the extractor.\<close>
  "referenceIndex markdown =
     foldl setReference Map.empty (execAll True MARKDOWN_REFERENCE_DEFINITION_REGEX True markdown)"

definition inlineImages :: "string \<Rightarrow> (string \<times> string \<times> string option) list" where
  \<comment> \<open>The inline image constructs of a document: alt text, url, title.\<close>
  "inlineImages markdown = execAll False MARKDOWN_IMAGE_INLINE_REGEX True markdown"

definition referenceImages :: "string \<Rightarrow> (string \<times> string) list" where
  \<comment> \<open>The reference-style image constructs of a document: alt text, reference id.\<close>
  "referenceImages markdown = execAll False MARKDOWN_IMAGE_REFERENCE_REGEX True markdown"

definition plainLinks :: "string \<Rightarrow> (string \<times> string \<times> string option) list" where
  \<comment> \<open>The plain link constructs of a document: link text, url, title.\<close>
  "plainLinks markdown = execAll False MARKDOWN_LINK_REGEX True markdown"

text \<open>
  The urls that the three scanning loops of the extractor hand to \<open>addMedia\<close>, each
  with its alt text, in the order of the calls.
\<close>

definition inlineCandidates :: "string \<Rightarrow> (string \<times> string) list" where
  "inlineCandidates markdown =
     map (\<lambda>(altText, url, title). (url, orElse title altText))
       (filter (\<lambda>(altText, url, title). truthy url \<and> truthy (trim url)) (inlineImages markdown))"

definition referenceCandidates :: "string \<Rightarrow> (string \<times> string) list" where
  "referenceCandidates markdown =
     concat (map (\<lambda>(altText, refId).
        case referenceIndex markdown (toLowerCase refId) of
          Some (url, title) \<Rightarrow> [(url, orElse title altText)]
        | None \<Rightarrow> []) (referenceImages markdown))"

definition linkCandidates :: "string \<Rightarrow> (string \<times> string) list" where
  "linkCandidates markdown =
     map (\<lambda>(linkText, url, title). (url, []))
       (filter (\<lambda>(linkText, url, title). isNonImageMedia url) (plainLinks markdown))"

definition imageCandidates :: "string \<Rightarrow> (string \<times> string) list" where
  "imageCandidates markdown = inlineCandidates markdown @ referenceCandidates markdown"

definition candidates :: "string \<Rightarrow> (string \<times> string) list" where
  "candidates markdown = imageCandidates markdown @ linkCandidates markdown"

definition pageUrl :: "string \<Rightarrow> string \<Rightarrow> string \<Rightarrow> string \<Rightarrow> string" where
  \<comment> \<open>The absolute url of a page, as the extractor builds it.\<close>
  "pageUrl srcPath org repo ref = ''https://'' @ ref @ ''--'' @ repo @ ''--'' @ org @ ''.aem.page'' @ srcPath"

definition addCandidate :: "string \<Rightarrow> extractor_state \<Rightarrow> string \<times> string \<Rightarrow> extractor_state" where
  \<comment> \<open>\<open>addMedia\<close> on a url paired with its alt text.\<close>
  "addCandidate sourceUrl st c = addMedia sourceUrl (fst c) (snd c) st"

definition seenInv :: "extractor_state \<Rightarrow> bool" where
  \<comment> \<open>What holds of \<open>mediaRefs\<close> and \<open>seen\<close> throughout a call of the extractor.\<close>
  "seenInv st = (snd st = path ` set (fst st) \<and> distinct (map path (fst st)))"


definition medialogUrl :: "string \<Rightarrow> string \<Rightarrow> string \<Rightarrow> string" where
  \<comment> \<open>The url to which \<open>sendMediaLogBatch\<close> posts.\<close>
  "medialogUrl org repo ref = MEDIALOG_API @ ''/'' @ org @ ''/'' @ repo @ ''/'' @ ref @ ''/''"

definition rateLimited :: "js_error + response \<Rightarrow> bool" where
  \<comment> \<open>The request was answered with one of the two rate-limit status codes.\<close>
  "rateLimited outcome = (case outcome of Inl e \<Rightarrow> False | Inr r \<Rightarrow> status r = 403 \<or> status r = 429)"

definition settle :: "js_error + response \<Rightarrow> js_error + send_result" where
  \<comment> \<open>How \<open>sendMediaLogBatch\<close> ends on the outcome of a request that it does not retry.\<close>
  "settle outcome =
     (case outcome of
        Inl e \<Rightarrow> Inl e
      | Inr r \<Rightarrow>
          if ok r then Inr (Success False (status r))
          else Inl (Error (''Media log API error: '' @ showNat (status r) @ '' - '' @ body_text r)))"

definition recordsOf :: "'b failure_file \<Rightarrow> 'b failed_entry list" where
  \<comment> \<open>The records in the failure file; none when there is no usable file.\<close>
  "recordsOf f = (case f of Holds rs \<Rightarrow> rs | Missing \<Rightarrow> [] | Unusable \<Rightarrow> [])"


function chunks :: "nat \<Rightarrow> 'a list \<Rightarrow> 'a list list" where
  \<comment> \<open>A list cut into consecutive pieces of the size given, the last one holding
      what remains.\<close>
  "chunks b xs = (if xs = [] \<or> b = 0 then [] else take b xs # chunks b (drop b xs))"
  by pat_completeness auto
termination
  by (relation "measure (\<lambda>(b, xs). length xs)") auto

declare chunks.simps [simp del]


definition logUrl :: "string \<Rightarrow> string \<Rightarrow> string \<Rightarrow> string" where
  \<comment> \<open>The url of the first request of \<open>buildPreviewUserMap\<close>.\<close>
  "logUrl org repo ref = LOG_API @ ''/'' @ org @ ''/'' @ repo @ ''/'' @ ref @ ''/?since=30d&limit=1000''"

definition qualifies :: "log_event \<Rightarrow> bool" where
  \<comment> \<open>The event is a preview and has a path and a user.\<close>
  "qualifies e = (event_route e = Some ''preview'' \<and> truthyOpt (event_path e) \<and> truthyOpt (event_user e))"

definition failsAt :: "net \<Rightarrow> nat \<Rightarrow> string \<Rightarrow> bool" where
  \<comment> \<open>The request with this number and url fails: \<open>fetch\<close> rejects, or the status is
      not a success, or the body cannot be read as a page.\<close>
  "failsAt fetch n url =
     (case fetch n url of Inl e \<Rightarrow> True | Inr r \<Rightarrow> \<not> ok r \<or> json r = None)"

fun follow :: "net \<Rightarrow> nat \<Rightarrow> string \<Rightarrow> log_page list \<Rightarrow> string option" where
  \<comment> \<open>The requests from this number and url on are answered with success by the
      pages given, in order, each with a next link; the value is the url of the
      request after them.\<close>
  "follow fetch n url [] = Some url"
| "follow fetch n url (p # ps) =
     (case fetch n url of
        Inl e \<Rightarrow> None
      | Inr r \<Rightarrow>
          if ok r \<and> json r = Some p \<and> truthyOpt (links_next p)
          then follow fetch (Suc n) (the (links_next p)) ps
          else None)"

definition eventsOf :: "log_page list \<Rightarrow> log_event list" where
  \<comment> \<open>The events of the pages, in the order of the feed.\<close>
  "eventsOf ps = concat (map pageEvents ps)"

definition valuesTruthy :: "user_map \<Rightarrow> bool" where
  \<comment> \<open>No path of the index has the empty string as its user.\<close>
  "valuesTruthy m = (\<forall>p u. m p = Some u \<longrightarrow> truthy u)"


definition sitePath :: "'a entry_scheme \<Rightarrow> string option" where
  \<comment> \<open>The site-relative path that the enrichment takes from the \<open>sourcePath\<close> of a
      record: nothing when the record has no \<open>sourcePath\<close> or the pattern does not match.\<close>
  "sitePath e =
     (if truthyOpt (sourcePath e) then firstMatch AEM_PAGE_REGEX (the (sourcePath e)) else None)"

section \<open>Facts about the matchers\<close>

lemma startsWith_iff: "startsWith s p \<longleftrightarrow> (\<exists>r. s = p @ r)"
  by (induction s p rule: startsWith.induct) auto

lemma in_bindP: "(y, r) \<in> set (bindP p f s) \<longleftrightarrow> (\<exists>x r1. (x, r1) \<in> set (p s) \<and> (y, r) \<in> set (f x r1))"
  by (auto simp: bindP_def)

lemma in_thenP: "(y, r) \<in> set (thenP p q s) \<longleftrightarrow> (\<exists>r1. ((), r1) \<in> set (p s) \<and> (y, r) \<in> set (q r1))"
  by (auto simp: thenP_def bindP_def)

lemma in_lits: "(u, r) \<in> set (lits p s) \<longleftrightarrow> s = p @ r"
  by (auto simp: lits_def startsWith_iff)

lemma in_ret: "(y, r) \<in> set (ret x s) \<longleftrightarrow> y = x \<and> r = s"
  by (auto simp: ret_def)

lemma in_splitsAt: "(a, r) \<in> set (splitsAt ks s) \<longleftrightarrow> (\<exists>k \<in> set ks. a = take k s \<and> r = drop k s)"
  by (auto simp: splitsAt_def)

lemma run_prefix:
  "(\<exists>k. lo \<le> k \<and> k \<le> length (takeWhile P s) \<and> a = take k s \<and> r = drop k s)
     \<longleftrightarrow> s = a @ r \<and> lo \<le> length a \<and> list_all P a"
proof
  assume "\<exists>k. lo \<le> k \<and> k \<le> length (takeWhile P s) \<and> a = take k s \<and> r = drop k s"
  then obtain k where k: "lo \<le> k" "k \<le> length (takeWhile P s)" and a: "a = take k s" and r: "r = drop k s"
    by blast
  have "take k (takeWhile P s @ dropWhile P s) = take k (takeWhile P s)"
    using k by (simp del: takeWhile_dropWhile_id)
  then have "a = take k (takeWhile P s)" using a by simp
  then have "set a \<subseteq> set (takeWhile P s)" by (simp add: set_take_subset)
  then have "list_all P a" by (auto simp: list_all_iff dest: set_takeWhileD)
  moreover have "length (takeWhile P s) \<le> length s" by (rule length_takeWhile_le)
  then have "length a = k" using a k by simp
  ultimately show "s = a @ r \<and> lo \<le> length a \<and> list_all P a" using a r k by simp
next
  assume h: "s = a @ r \<and> lo \<le> length a \<and> list_all P a"
  then have "takeWhile P s = a @ takeWhile P r" by (simp add: list_all_iff)
  then have "length a \<le> length (takeWhile P s)" by simp
  with h show "\<exists>k. lo \<le> k \<and> k \<le> length (takeWhile P s) \<and> a = take k s \<and> r = drop k s"
    by (intro exI [of _ "length a"]) simp
qed

lemma in_many1G: "(a, r) \<in> set (many1G P s) \<longleftrightarrow> s = a @ r \<and> a \<noteq> [] \<and> list_all P a"
proof -
  have "(a, r) \<in> set (many1G P s) \<longleftrightarrow>
        (\<exists>k. 1 \<le> k \<and> k \<le> length (takeWhile P s) \<and> a = take k s \<and> r = drop k s)"
    unfolding many1G_def in_splitsAt by (auto simp del: upt_Suc simp: less_Suc_eq_le)
  also have "\<dots> \<longleftrightarrow> s = a @ r \<and> 1 \<le> length a \<and> list_all P a" by (rule run_prefix)
  also have "\<dots> \<longleftrightarrow> s = a @ r \<and> a \<noteq> [] \<and> list_all P a" by (cases a) auto
  finally show ?thesis .
qed

lemma in_manyG: "(a, r) \<in> set (manyG P s) \<longleftrightarrow> s = a @ r \<and> list_all P a"
proof -
  have "(a, r) \<in> set (manyG P s) \<longleftrightarrow>
        (\<exists>k. 0 \<le> k \<and> k \<le> length (takeWhile P s) \<and> a = take k s \<and> r = drop k s)"
    unfolding manyG_def in_splitsAt by (auto simp del: upt_Suc simp: less_Suc_eq_le)
  also have "\<dots> \<longleftrightarrow> s = a @ r \<and> 0 \<le> length a \<and> list_all P a" by (rule run_prefix)
  finally show ?thesis by simp
qed

lemma in_manyL: "(a, r) \<in> set (manyL P s) \<longleftrightarrow> s = a @ r \<and> list_all P a"
proof -
  have "(a, r) \<in> set (manyL P s) \<longleftrightarrow>
        (\<exists>k. 0 \<le> k \<and> k \<le> length (takeWhile P s) \<and> a = take k s \<and> r = drop k s)"
    unfolding manyL_def in_splitsAt by (auto simp del: upt_Suc simp: less_Suc_eq_le)
  also have "\<dots> \<longleftrightarrow> s = a @ r \<and> 0 \<le> length a \<and> list_all P a" by (rule run_prefix)
  finally show ?thesis by simp
qed

lemma matchAt_Some: "matchAt p s = Some m \<Longrightarrow> m \<in> set (p s)"
  by (auto simp: matchAt_def split: list.splits)

lemma firstMatch_Some:
  "firstMatch p s = Some x \<Longrightarrow> \<exists>pre suf r. s = pre @ suf \<and> (x, r) \<in> set (p suf)"
proof (induction s)
  case Nil
  then obtain m where "matchAt p [] = Some m" "fst m = x" by auto
  then have "(x, snd m) \<in> set (p [])" using matchAt_Some by fastforce
  then show ?case by blast
next
  case (Cons c cs)
  show ?case
  proof (cases "matchAt p (c # cs)")
    case None
    with Cons obtain pre suf r where "cs = pre @ suf" "(x, r) \<in> set (p suf)" by auto
    then have "c # cs = (c # pre) @ suf" by simp
    with \<open>(x, r) \<in> set (p suf)\<close> show ?thesis by blast
  next
    case (Some m)
    with Cons.prems have "fst m = x" by simp
    with Some have "(x, snd m) \<in> set (p (c # cs))" using matchAt_Some by fastforce
    then show ?thesis by (metis append_Nil)
  qed
qed

lemma media_hash_match:
  assumes "(h, r) \<in> set (MEDIA_HASH_REGEX suf)"
  shows "suf = ''media_'' @ h @ ''.'' @ r \<and> h \<noteq> [] \<and> list_all hexDigit h"
  using assms unfolding MEDIA_HASH_REGEX_def
  by (auto simp: in_thenP in_bindP in_lits in_many1G in_ret)

lemma extractMediaHash_Some:
  assumes "extractMediaHash url = Some h"
  shows "h \<noteq> [] \<and> list_all hexDigit h \<and> (\<exists>pre post. url = pre @ ''media_'' @ h @ ''.'' @ post)"
proof -
  from assms obtain pre suf r where "url = pre @ suf" "(h, r) \<in> set (MEDIA_HASH_REGEX suf)"
    unfolding extractMediaHash_def by (blast dest: firstMatch_Some)
  with media_hash_match [of h r suf] show ?thesis by blast
qed

section \<open>The extractor\<close>

lemma inline_fold:
  "foldl (inlineStep su) st ms =
   foldl (addCandidate su) st
     (map (\<lambda>(altText, url, title). (url, orElse title altText))
        (filter (\<lambda>(altText, url, title). truthy url \<and> truthy (trim url)) ms))"
  by (induction ms arbitrary: st) (simp_all add: inlineStep_def addCandidate_def split: prod.splits)

lemma reference_fold:
  "foldl (referenceStep su refs) st ms =
   foldl (addCandidate su) st
     (concat (map (\<lambda>(altText, refId).
        case refs (toLowerCase refId) of
          Some (url, title) \<Rightarrow> [(url, orElse title altText)]
        | None \<Rightarrow> []) ms))"
  by (induction ms arbitrary: st) (simp_all add: referenceStep_def addCandidate_def split: prod.splits option.splits)

lemma link_fold:
  "foldl (linkStep su) st ms =
   foldl (addCandidate su) st
     (map (\<lambda>(linkText, url, title). (url, []))
        (filter (\<lambda>(linkText, url, title). isNonImageMedia url) ms))"
  by (induction ms arbitrary: st) (simp_all add: linkStep_def addCandidate_def split: prod.splits)

lemma extract_as_fold:
  "extractMediaReferences md sp org repo ref =
     fst (foldl (addCandidate (pageUrl sp org repo ref)) ([], {}) (candidates md))"
  by (simp add: extractMediaReferences_def Let_def inline_fold reference_fold link_fold
      candidates_def imageCandidates_def inlineCandidates_def referenceCandidates_def
      linkCandidates_def inlineImages_def referenceImages_def plainLinks_def referenceIndex_def
      pageUrl_def)

lemma path_mediaEntry [simp]: "path (mediaEntry su p a) = p"
  by (simp add: mediaEntry_def)

lemma addCandidate_inv: "seenInv st \<Longrightarrow> seenInv (addCandidate su st c)"
  by (cases st) (auto simp: seenInv_def addCandidate_def addMedia_def)

lemma fold_inv: "seenInv st \<Longrightarrow> seenInv (foldl (addCandidate su) st cs)"
  by (induction cs arbitrary: st) (auto simp: addCandidate_inv)

lemma fold_paths:
  "seenInv st \<Longrightarrow>
   path ` set (fst (foldl (addCandidate su) st cs)) = path ` set (fst st) \<union> fst ` set cs"
proof (induction cs arbitrary: st)
  case Nil
  then show ?case by simp
next
  case (Cons c cs)
  have "path ` set (fst (addCandidate su st c)) = insert (fst c) (path ` set (fst st))"
    using Cons.prems by (cases st) (auto simp: seenInv_def addCandidate_def addMedia_def)
  with Cons.IH [OF addCandidate_inv [OF Cons.prems]] show ?case by auto
qed

lemma fold_origin:
  "seenInv st \<Longrightarrow> e \<in> set (fst (foldl (addCandidate su) st cs)) \<Longrightarrow>
   e \<in> set (fst st) \<or>
   (path e \<notin> snd st \<and>
    (\<exists>a. find (\<lambda>c. fst c = path e) cs = Some (path e, a) \<and> e = mediaEntry su (path e) a))"
proof (induction cs arbitrary: st)
  case Nil
  then show ?case by simp
next
  case (Cons c cs)
  let ?st' = "addCandidate su st c"
  have inv': "seenInv ?st'" using Cons.prems(1) by (rule addCandidate_inv)
  from Cons.prems(2) have "e \<in> set (fst (foldl (addCandidate su) ?st' cs))" by simp
  from Cons.IH [OF inv' this] consider
    (old) "e \<in> set (fst ?st')"
    | (new) "path e \<notin> snd ?st'"
        "\<exists>a. find (\<lambda>c. fst c = path e) cs = Some (path e, a) \<and> e = mediaEntry su (path e) a"
    by blast
  then show ?case
  proof cases
    case old
    show ?thesis
    proof (cases "fst c \<in> snd st")
      case True
      with old show ?thesis by (cases st) (auto simp: addCandidate_def addMedia_def)
    next
      case False
      with old have "e \<in> set (fst st) \<or> e = mediaEntry su (fst c) (snd c)"
        by (cases st) (auto simp: addCandidate_def addMedia_def)
      then show ?thesis
      proof
        assume "e \<in> set (fst st)" then show ?thesis by simp
      next
        assume e: "e = mediaEntry su (fst c) (snd c)"
        then have "path e = fst c" by simp
        with e False show ?thesis by (cases c) auto
      qed
    qed
  next
    case new
    have sub: "snd ?st' = insert (fst c) (snd st)"
      by (cases st) (auto simp: addCandidate_def addMedia_def)
    with new(1) have "path e \<noteq> fst c" "path e \<notin> snd st" by auto
    with new(2) show ?thesis by auto
  qed
qed

lemma extract_distinct: "distinct (map path (extractMediaReferences md sp org repo ref))"
proof -
  have "seenInv ([], {})" by (simp add: seenInv_def)
  then have "seenInv (foldl (addCandidate (pageUrl sp org repo ref)) ([], {}) (candidates md))"
    by (rule fold_inv)
  then show ?thesis by (simp add: extract_as_fold seenInv_def)
qed

lemma extract_paths:
  "path ` set (extractMediaReferences md sp org repo ref) = fst ` set (candidates md)"
proof -
  have "seenInv ([], {})" by (simp add: seenInv_def)
  from fold_paths [OF this, of "pageUrl sp org repo ref" "candidates md"]
  show ?thesis by (simp add: extract_as_fold)
qed

lemma extract_origin:
  assumes "e \<in> set (extractMediaReferences md sp org repo ref)"
  shows "\<exists>a. find (\<lambda>c. fst c = path e) (candidates md) = Some (path e, a)
             \<and> e = mediaEntry (pageUrl sp org repo ref) (path e) a"
proof -
  have "seenInv ([], {})" by (simp add: seenInv_def)
  from fold_origin [OF this, of e "pageUrl sp org repo ref" "candidates md"] assms
  show ?thesis by (simp add: extract_as_fold)
qed

lemma trim_Nil [simp]: "trim [] = []"
  by (simp add: trim_def)

lemma fields_mediaEntry:
  "alt (mediaEntry su p a) = (if trim a = [] then None else Some (trim a))
   \<and> action (mediaEntry su p a) = Some ''add''
   \<and> sourcePath (mediaEntry su p a) = Some su
   \<and> operation (mediaEntry su p a) = None \<and> user (mediaEntry su p a) = None"
  by (cases a) (simp_all add: mediaEntry_def truthy_def)

section \<open>Deduplication\<close>

lemma hashOf_update [simp]: "hashOf (e\<lparr>operation := x\<rparr>) = hashOf e"
  by (simp add: hashOf_def)

lemma dedupStep_None:
  "hashOf e = None \<Longrightarrow> fst (dedupStep st e) = e\<lparr>operation := Some ''ingest''\<rparr>
     \<and> seenHashes (snd (dedupStep st e)) = seenHashes st"
  by (simp add: dedupStep_def hashOf_def)

lemma dedupStep_seen:
  "hashOf e = Some h \<Longrightarrow> h \<in> seenHashes st \<Longrightarrow>
   fst (dedupStep st e) = e\<lparr>operation := Some ''reuse''\<rparr>
     \<and> seenHashes (snd (dedupStep st e)) = seenHashes st"
  using extractMediaHash_Some [of "path e" h]
  by (simp add: dedupStep_def hashOf_def truthy_def)

lemma dedupStep_new:
  "hashOf e = Some h \<Longrightarrow> h \<notin> seenHashes st \<Longrightarrow>
   fst (dedupStep st e) = e\<lparr>operation := Some ''ingest''\<rparr>
     \<and> seenHashes (snd (dedupStep st e)) = insert h (seenHashes st)"
  using extractMediaHash_Some [of "path e" h]
  by (simp add: dedupStep_def hashOf_def truthy_def)

lemma mapWithState_Cons:
  "fst (mapWithState f st (x # xs)) = fst (f st x) # fst (mapWithState f (snd (f st x)) xs)"
  by (simp split: prod.splits)

lemma withHash_Cons:
  "withHash h (e # es) = (if hashOf e = Some h then e # withHash h es else withHash h es)"
  by (simp add: withHash_def)

lemma withHash_dedup:
  "withHash h (fst (mapWithState dedupStep st es)) =
     (if h \<in> seenHashes st then map (\<lambda>e. e\<lparr>operation := Some ''reuse''\<rparr>) (withHash h es)
      else (case withHash h es of [] \<Rightarrow> []
            | e # rest \<Rightarrow> e\<lparr>operation := Some ''ingest''\<rparr> # map (\<lambda>e. e\<lparr>operation := Some ''reuse''\<rparr>) rest))"
proof (induction es arbitrary: st)
  case Nil
  then show ?case by (simp add: withHash_def)
next
  case (Cons e es)
  show ?case
  proof (cases "hashOf e")
    case None
    then show ?thesis
      using dedupStep_None [OF None, of st] Cons.IH [of "snd (dedupStep st e)"]
      by (simp add: mapWithState_Cons withHash_Cons del: mapWithState.simps)
  next
    case (Some h')
    show ?thesis
    proof (cases "h' \<in> seenHashes st")
      case True
      then show ?thesis
        using dedupStep_seen [OF Some True] Cons.IH [of "snd (dedupStep st e)"] Some
        by (auto simp add: mapWithState_Cons withHash_Cons simp del: mapWithState.simps)
    next
      case False
      then show ?thesis
        using dedupStep_new [OF Some False] Cons.IH [of "snd (dedupStep st e)"] Some
        by (auto simp add: mapWithState_Cons withHash_Cons simp del: mapWithState.simps split: list.splits)
    qed
  qed
qed

lemma dedup_sameBut:
  "list_all2 sameButOperation es (fst (mapWithState dedupStep st es))"
proof (induction es arbitrary: st)
  case Nil
  then show ?case by simp
next
  case (Cons e es)
  have "sameButOperation e (fst (dedupStep st e))"
    by (simp add: dedupStep_def sameButOperation_def split: option.splits)
  with Cons.IH [of "snd (dedupStep st e)"] show ?case
    by (simp add: mapWithState_Cons del: mapWithState.simps)
qed

lemma dedup_no_hash:
  "e' \<in> set (fst (mapWithState dedupStep st es)) \<Longrightarrow> hashOf e' = None \<Longrightarrow> firstSeen e'"
proof (induction es arbitrary: st)
  case Nil
  then show ?case by simp
next
  case (Cons e es)
  from Cons.prems(1) consider "e' = fst (dedupStep st e)"
    | "e' \<in> set (fst (mapWithState dedupStep (snd (dedupStep st e)) es))"
    by (auto simp add: mapWithState_Cons simp del: mapWithState.simps)
  then show ?case
  proof cases
    case 1
    with Cons.prems(2) show ?thesis
      by (auto simp: dedupStep_def firstSeen_def hashOf_def split: option.splits if_splits)
  next
    case 2
    with Cons show ?thesis by blast
  qed
qed

section \<open>Delivery\<close>

lemma sendLoop_run:
  assumes "a + j \<le> m"
    and "\<forall>i<j. rateLimited (fetch (requests w + i) url)"
    and "a + j < m \<longrightarrow> \<not> rateLimited (fetch (requests w + j) url)"
  shows "sendLoop fetch url m a w =
           (settle (fetch (requests w + j) url),
            w\<lparr>requests := requests w + j + 1,
              sleeps := sleeps w @ map (\<lambda>i. 2 ^ (a + i) * 1000) [0..<j]\<rparr>)"
  using assms
proof (induction j arbitrary: a w)
  case 0
  then show ?case
    by (subst sendLoop.simps)
      (auto simp: settle_def rateLimited_def Let_def split: sum.splits)
next
  case (Suc j)
  from Suc.prems(2) have rl: "rateLimited (fetch (requests w) url)" by force
  then obtain r where r: "fetch (requests w) url = Inr r" "status r = 403 \<or> status r = 429"
    by (auto simp: rateLimited_def split: sum.splits)
  then have nok: "\<not> ok r" by (auto simp: ok_def)
  let ?w' = "sleep (2 ^ a * 1000) (w\<lparr>requests := Suc (requests w)\<rparr>)"
  from Suc.prems(1) have am: "a < m" by simp
  have step: "sendLoop fetch url m a w = sendLoop fetch url m (Suc a) ?w'"
    using r nok am by (subst sendLoop.simps) (simp add: Let_def)
  have req: "requests ?w' = Suc (requests w)" by (simp add: sleep_def)
  have p1: "Suc a + j \<le> m" using Suc.prems(1) by simp
  have p2: "\<forall>i<j. rateLimited (fetch (requests ?w' + i) url)"
    using Suc.prems(2) req by (metis Suc_less_eq add_Suc add_Suc_right)
  have p3: "Suc a + j < m \<longrightarrow> \<not> rateLimited (fetch (requests ?w' + j) url)"
    using Suc.prems(3) req by simp
  have m: "map (\<lambda>i. 2 ^ (a + i) * 1000) [0..<Suc j]
             = (2 ^ a * 1000 :: nat) # map (\<lambda>i. 2 ^ (Suc a + i) * 1000) [0..<j]"
    by (simp add: upt_conv_Cons map_Suc_upt [symmetric] del: upt_Suc)
  show ?case
    unfolding step Suc.IH [OF p1 p2 p3] m
    by (simp add: sleep_def)
qed

lemma backoffs_three:
  "j \<le> 3 \<Longrightarrow> map (\<lambda>i. 2 ^ (0 + i) * 1000) [0..<j] = take j [1000, 2000, 4000 :: nat]"
proof -
  assume "j \<le> 3"
  then consider "j = 0" | "j = 1" | "j = 2" | "j = 3" by linarith
  then show ?thesis by cases (simp_all add: upt_rec numeral_2_eq_2 numeral_3_eq_3)
qed

lemma sendLoop_keeps:
  "failureFile (snd (sendLoop fetch url m a w)) = failureFile w
   \<and> writeFails (snd (sendLoop fetch url m a w)) = writeFails w
   \<and> fileAfterFailedWrite (snd (sendLoop fetch url m a w)) = fileAfterFailedWrite w
   \<and> clock (snd (sendLoop fetch url m a w)) = clock w"
proof (induction fetch url m a w rule: sendLoop.induct)
  case (1 fetch url maxRetries attempt w)
  show ?case
    apply (subst (1 2 3 4) sendLoop.simps)
    using 1
    apply (auto simp: Let_def sleep_def split: sum.splits)
    done
qed

lemma send_keeps:
  "failureFile (snd (sendMediaLogBatch fetch org repo ref dryRun m w)) = failureFile w
   \<and> writeFails (snd (sendMediaLogBatch fetch org repo ref dryRun m w)) = writeFails w
   \<and> fileAfterFailedWrite (snd (sendMediaLogBatch fetch org repo ref dryRun m w)) = fileAfterFailedWrite w
   \<and> clock (snd (sendMediaLogBatch fetch org repo ref dryRun m w)) = clock w"
  by (simp add: sendMediaLogBatch_def sendLoop_keeps)

lemma deliverBatch_sent:
  assumes "sendMediaLogBatch fetch org repo ref dryRun 3 w = (Inr r, w1)"
  shows "fst (deliverBatch fetch org repo ref dryRun n i batch (st, w)) = st\<lparr>batchesSent := batchesSent st + 1\<rparr>
    \<and> failureFile (snd (deliverBatch fetch org repo ref dryRun n i batch (st, w))) = failureFile w
    \<and> writeFails (snd (deliverBatch fetch org repo ref dryRun n i batch (st, w))) = writeFails w
    \<and> fileAfterFailedWrite (snd (deliverBatch fetch org repo ref dryRun n i batch (st, w)))
        = fileAfterFailedWrite w
    \<and> clock (snd (deliverBatch fetch org repo ref dryRun n i batch (st, w))) = clock w"
  using assms send_keeps [of fetch org repo ref dryRun 3 w]
  by (simp add: deliverBatch_def sleep_def)

lemma deliverBatch_failed:
  assumes "sendMediaLogBatch fetch org repo ref dryRun 3 w = (Inl err, w1)"
  shows "deliverBatch fetch org repo ref dryRun n i batch (st, w)
           = (st\<lparr>errors := errors st + 1\<rparr>, saveFailedBatch batch err w1)
    \<and> failureFile w1 = failureFile w \<and> writeFails w1 = writeFails w
    \<and> fileAfterFailedWrite w1 = fileAfterFailedWrite w \<and> clock w1 = clock w"
  using assms send_keeps [of fetch org repo ref dryRun 3 w]
  by (simp add: deliverBatch_def)

lemma saveFailedBatch_file:
  "failureFile (saveFailedBatch batch err w) =
     (if failureFile w = Unusable then Unusable
      else if writeFails w then fileAfterFailedWrite w
      else Holds (recordsOf (failureFile w) @ [\<lparr>timestamp = clock w, error = message err, entries = batch\<rparr>]))"
  by (simp add: saveFailedBatch_def writeFile_def recordsOf_def Let_def split: failure_file.splits)

lemma saveFailedBatch_keeps:
  "writeFails (saveFailedBatch batch err w) = writeFails w
   \<and> fileAfterFailedWrite (saveFailedBatch batch err w) = fileAfterFailedWrite w
   \<and> clock (saveFailedBatch batch err w) = clock w"
  by (simp add: saveFailedBatch_def writeFile_def Let_def split: failure_file.splits)

lemma deliverBatch_summary:
  assumes "deliverBatch fetch org repo ref dryRun n i batch (st, w) = (st', w')"
  shows "batchesSent st' + errors st' = batchesSent st + errors st + 1
    \<and> errors st \<le> errors st'
    \<and> writeFails w' = writeFails w \<and> fileAfterFailedWrite w' = fileAfterFailedWrite w
    \<and> clock w' = clock w
    \<and> (failureFile w = Unusable \<longrightarrow> failureFile w' = Unusable)
    \<and> (failureFile w \<noteq> Unusable \<and> \<not> writeFails w \<longrightarrow> failureFile w' \<noteq> Unusable
         \<and> (\<exists>new. recordsOf (failureFile w') = recordsOf (failureFile w) @ new
               \<and> set (map entries new) \<subseteq> {batch}
               \<and> length new = errors st' - errors st))"
proof (cases "sendMediaLogBatch fetch org repo ref dryRun 3 w")
  case (Pair res w1)
  show ?thesis
  proof (cases res)
    case (Inr r)
    with Pair deliverBatch_sent [of fetch org repo ref dryRun w r w1 n i batch st] assms
    show ?thesis by auto
  next
    case (Inl err)
    with Pair deliverBatch_failed [of fetch org repo ref dryRun w err w1 n i batch st] assms
    have st': "st' = st\<lparr>errors := errors st + 1\<rparr>" and w': "w' = saveFailedBatch batch err w1"
      and k: "failureFile w1 = failureFile w" "writeFails w1 = writeFails w"
        "fileAfterFailedWrite w1 = fileAfterFailedWrite w" "clock w1 = clock w"
      by auto
    show ?thesis
      unfolding st' w' using k
      by (auto simp: saveFailedBatch_file saveFailedBatch_keeps recordsOf_def split: failure_file.splits)
  qed
qed

lemma deliverFrom_summary:
  assumes "deliverFrom fetch org repo ref dryRun n i batches (st, w) = (st', w')"
  shows "batchesSent st' + errors st' = batchesSent st + errors st + length batches
    \<and> errors st \<le> errors st'
    \<and> writeFails w' = writeFails w \<and> fileAfterFailedWrite w' = fileAfterFailedWrite w
    \<and> clock w' = clock w
    \<and> (failureFile w = Unusable \<longrightarrow> failureFile w' = Unusable)
    \<and> (failureFile w \<noteq> Unusable \<and> \<not> writeFails w \<longrightarrow> failureFile w' \<noteq> Unusable
         \<and> (\<exists>new. recordsOf (failureFile w') = recordsOf (failureFile w) @ new
               \<and> set (map entries new) \<subseteq> set batches
               \<and> length new = errors st' - errors st))"
  using assms
proof (induction batches arbitrary: i st w)
  case Nil
  then show ?case by simp
next
  case (Cons batch rest)
  obtain st1 w1 where one: "deliverBatch fetch org repo ref dryRun n i batch (st, w) = (st1, w1)"
    by (cases "deliverBatch fetch org repo ref dryRun n i batch (st, w)") auto
  with Cons.prems have more: "deliverFrom fetch org repo ref dryRun n (Suc i) rest (st1, w1) = (st', w')"
    by simp
  note A = deliverBatch_summary [OF one]
  note B = Cons.IH [OF more]
  have basic: "batchesSent st' + errors st' = batchesSent st + errors st + length (batch # rest)
    \<and> errors st \<le> errors st'
    \<and> writeFails w' = writeFails w \<and> fileAfterFailedWrite w' = fileAfterFailedWrite w
    \<and> clock w' = clock w
    \<and> (failureFile w = Unusable \<longrightarrow> failureFile w' = Unusable)"
    using A B by auto
  have good: "failureFile w' \<noteq> Unusable
         \<and> (\<exists>new. recordsOf (failureFile w') = recordsOf (failureFile w) @ new
               \<and> set (map entries new) \<subseteq> set (batch # rest)
               \<and> length new = errors st' - errors st)"
    if ok: "failureFile w \<noteq> Unusable \<and> \<not> writeFails w"
  proof -
    from ok A obtain new1 where n1: "failureFile w1 \<noteq> Unusable"
      "recordsOf (failureFile w1) = recordsOf (failureFile w) @ new1"
      "set (map entries new1) \<subseteq> {batch}"
      "length new1 = errors st1 - errors st" by blast
    from ok A have "\<not> writeFails w1" by simp
    with n1(1) B obtain new2 where n2: "failureFile w' \<noteq> Unusable"
      "recordsOf (failureFile w') = recordsOf (failureFile w1) @ new2"
      "set (map entries new2) \<subseteq> set rest"
      "length new2 = errors st' - errors st1" by blast
    have "recordsOf (failureFile w') = recordsOf (failureFile w) @ (new1 @ new2)"
      using n1 n2 by simp
    moreover have "set (map entries (new1 @ new2)) \<subseteq> set (batch # rest)"
      using n1 n2 by auto
    moreover have "length (new1 @ new2) = errors st' - errors st"
      using n1 n2 A B by auto
    ultimately show ?thesis using n2(1) by blast
  qed
  from basic good show ?case by blast
qed

section \<open>Batches\<close>

lemma neg_div_ceil:
  assumes "0 < b"
  shows "- ((- int N) div int b) = int ((N + b - 1) div b)"
proof -
  let ?q = "(N + b - 1) div b" and ?r = "(N + b - 1) mod b"
  have "int (N + b - 1) = int b * int ?q + int ?r"
    by (metis mult_div_mod_eq of_nat_add of_nat_mult)
  moreover have "int (N + b - 1) = int N + int b - 1" using assms by (simp add: of_nat_diff)
  ultimately have "- int N = int b * (- int ?q) + (int b - 1 - int ?r)" by simp
  moreover have "?r < b" using assms by simp
  then have "0 \<le> int b - 1 - int ?r" "int b - 1 - int ?r < int b" by simp_all
  ultimately have "(- int N) div int b = - int ?q" by (rule int_div_pos_eq)
  then show ?thesis by simp
qed

lemma ceiling_as_div:
  assumes "0 < b"
  shows "nat \<lceil>real N / real b\<rceil> = (N + b - 1) div b"
proof -
  have "\<lceil>real N / real b\<rceil> = \<lceil>real_of_int (int N) / real_of_int (int b)\<rceil>" by simp
  also have "\<dots> = - ((- int N) div int b)" by (rule ceiling_divide_eq_div)
  also have "\<dots> = int ((N + b - 1) div b)" using assms by (rule neg_div_ceil)
  finally show ?thesis by simp
qed

lemma chunks_Nil [simp]: "chunks b [] = []"
  by (simp add: chunks.simps)

lemma chunks_Cons: "0 < b \<Longrightarrow> xs \<noteq> [] \<Longrightarrow> chunks b xs = take b xs # chunks b (drop b xs)"
  by (subst chunks.simps) simp

lemma concat_chunks: "0 < b \<Longrightarrow> concat (chunks b xs) = xs"
proof (induction b xs rule: chunks.induct)
  case (1 b xs)
  show ?case
  proof (cases "xs = []")
    case True
    then show ?thesis by simp
  next
    case False
    with 1 show ?thesis by (simp add: chunks_Cons)
  qed
qed

lemma length_chunks: "0 < b \<Longrightarrow> length (chunks b xs) = (length xs + b - 1) div b"
proof (induction b xs rule: chunks.induct)
  case (1 b xs)
  show ?case
  proof (cases "xs = []")
    case True
    with 1(2) show ?thesis by simp
  next
    case False
    then have pos: "0 < length xs" by simp
    have IH: "length (chunks b (drop b xs)) = (length xs - b + b - 1) div b"
      using 1 False by simp
    show ?thesis
    proof (cases "b \<le> length xs")
      case True
      then have "length xs + b - 1 = (length xs - b + b - 1) + b" using 1(2) by simp
      then have "(length xs + b - 1) div b = (length xs - b + b - 1) div b + 1"
        using 1(2) by (metis div_add_self2 less_numeral_extra(3))
      with IH False 1(2) show ?thesis by (simp add: chunks_Cons)
    next
      case False
      then have "length xs - b + b - 1 = b - 1" by simp
      then have "(length xs - b + b - 1) div b = 0" using 1(2) by simp
      moreover have "(length xs + b - 1) div b = 1"
      proof -
        have "b \<le> length xs + b - 1" using pos by arith
        moreover have "length xs + b - 1 < 2 * b" using False by simp
        ultimately show ?thesis
          by (metis One_nat_def Suc_1 div_nat_eqI mult.commute nat_mult_1)
      qed
      ultimately show ?thesis using IH \<open>xs \<noteq> []\<close> 1(2) by (simp add: chunks_Cons)
    qed
  qed
qed

lemma nth_chunks:
  "0 < b \<Longrightarrow> k < length (chunks b xs) \<Longrightarrow> chunks b xs ! k = take b (drop (k * b) xs)"
proof (induction k arbitrary: xs)
  case 0
  then have "xs \<noteq> []" by auto
  with 0 show ?case by (simp add: chunks_Cons)
next
  case (Suc k)
  then have ne: "xs \<noteq> []" by auto
  with Suc.prems have "k < length (chunks b (drop b xs))" by (simp add: chunks_Cons)
  from Suc.IH [OF Suc.prems(1) this] ne Suc.prems(1)
  show ?case by (simp add: chunks_Cons add.commute)
qed

lemma slice_inside:
  assumes "i \<le> length xs" "0 < b"
  shows "slice xs (int i) (int i + int b) = take b (drop i xs)"
proof -
  have "take (nat (min (int i + int b) (int (length xs)) - int i)) (drop i xs) = take b (drop i xs)"
  proof (cases "i + b \<le> length xs")
    case True
    then have "min (int i + int b) (int (length xs)) = int i + int b" by simp
    then show ?thesis by simp
  next
    case False
    then have "min (int i + int b) (int (length xs)) = int (length xs)" by simp
    then have "nat (min (int i + int b) (int (length xs)) - int i) = length xs - i" by simp
    moreover have "length (drop i xs) = length xs - i" by simp
    moreover have "length xs - i \<le> b" using False by simp
    ultimately show ?thesis by simp
  qed
  then show ?thesis using assms by (simp add: slice_def Let_def)
qed

lemma batchLoop_chunks:
  "0 < b \<Longrightarrow> batchLoop es (int b) (int i) acc = Some (acc @ chunks b (drop i es))"
proof (induction "length es - i" arbitrary: i acc rule: less_induct)
  case less
  show ?case
  proof (cases "i < length es")
    case False
    then show ?thesis by (subst batchLoop.simps) simp
  next
    case True
    then have ne: "drop i es \<noteq> []" by simp
    have "batchLoop es (int b) (int i) acc
            = batchLoop es (int b) (int (i + b)) (acc @ [slice es (int i) (int i + int b)])"
      using True by (subst batchLoop.simps) simp
    also have "\<dots> = Some ((acc @ [slice es (int i) (int i + int b)]) @ chunks b (drop (i + b) es))"
      using less.prems True by (intro less.hyps) auto
    also have "slice es (int i) (int i + int b) = take b (drop i es)"
      using True less.prems by (intro slice_inside) auto
    finally show ?thesis
      using less.prems ne by (simp add: chunks_Cons [of b "drop i es"] add.commute)
  qed
qed

text \<open>With a batch size that is not positive and a list that is not empty the loop does not end.\<close>

lemma batchLoop_stuck:
  assumes "batchLoop es b i acc = Some y"
  shows "\<not> (b \<le> 0 \<and> i < int (length es))"
  using assms
proof (induction es b i acc y rule: batchLoop.raw_induct [rotated 1, consumes 1, case_names step])
  case (step rec es b i acc y)
  show ?case
  proof
    assume a: "b \<le> 0 \<and> i < int (length es)"
    with step(2) have "rec es b (i + b) (acc @ [slice es i (i + b)]) = Some y" by simp
    from step(1) [OF this] a show False by simp
  qed
qed

lemma batchEntries_nonpositive:
  "b \<le> 0 \<Longrightarrow> es \<noteq> [] \<Longrightarrow> batchEntries es b = None"
proof (rule ccontr)
  assume b: "b \<le> 0" and ne: "es \<noteq> []" and "batchEntries es b \<noteq> None"
  then obtain y where "batchLoop es b 0 [] = Some y" by (auto simp: batchEntries_def)
  from batchLoop_stuck [OF this] b ne show False by simp
qed

section \<open>The user index and the enrichment\<close>

lemma fetchPages_follow:
  "follow fetch n url ps = Some u \<Longrightarrow>
   fetchPages fetch n url m = fetchPages fetch (n + length ps) u (foldl insertEvent m (eventsOf ps))"
proof (induction ps arbitrary: n url m)
  case Nil
  then show ?case by (simp add: eventsOf_def)
next
  case (Cons p ps)
  from Cons.prems obtain r where r: "fetch n url = Inr r" "ok r" "json r = Some p"
    "truthyOpt (links_next p)" and f: "follow fetch (Suc n) (the (links_next p)) ps = Some u"
    by (auto split: sum.splits if_splits)
  have "fetchPages fetch n url m =
          fetchPages fetch (Suc n) (the (links_next p)) (foldl insertEvent m (pageEvents p))"
    using r by (subst fetchPages.simps) simp
  also have "\<dots> = fetchPages fetch (Suc n + length ps) u
                      (foldl insertEvent (foldl insertEvent m (pageEvents p)) (eventsOf ps))"
    using f by (rule Cons.IH)
  finally show ?case by (simp add: eventsOf_def)
qed

lemma fetchPages_fail:
  "failsAt fetch n url \<Longrightarrow> \<exists>t. fetchPages fetch n url m = Some (m, t)"
  by (subst fetchPages.simps) (auto simp: failsAt_def split: sum.splits)

lemma fetchPages_last:
  "fetch n url = Inr r \<Longrightarrow> ok r \<Longrightarrow> json r = Some p \<Longrightarrow> \<not> truthyOpt (links_next p) \<Longrightarrow>
   fetchPages fetch n url m = Some (foldl insertEvent m (pageEvents p), None)"
  by (subst fetchPages.simps) simp

lemma insertEvent_lookup:
  "insertEvent m e p =
     (case m p of Some u \<Rightarrow> Some u
      | None \<Rightarrow> if qualifies e \<and> event_path e = Some p then event_user e else None)"
  by (auto simp: insertEvent_def qualifies_def truthyOpt_def split: option.splits)

lemma foldl_insertEvent_lookup:
  "foldl insertEvent m es p =
     (case m p of Some u \<Rightarrow> Some u
      | None \<Rightarrow> (case find (\<lambda>e. qualifies e \<and> event_path e = Some p) es of
                   Some e \<Rightarrow> event_user e | None \<Rightarrow> None))"
proof (induction es arbitrary: m)
  case Nil
  then show ?case by (simp split: option.splits)
next
  case (Cons e es)
  show ?case
    unfolding foldl_Cons Cons.IH [of "insertEvent m e"] insertEvent_lookup [of m e p]
    by (auto simp: qualifies_def truthyOpt_def split: option.splits)
qed

lemma build_never_raises: "buildPreviewUserMap fetch org repo ref \<noteq> Some (Inl e)"
  by (simp add: buildPreviewUserMap_def split: option.splits prod.splits)

lemma build_on_failure:
  assumes "follow fetch 0 (logUrl org repo ref) ps = Some u" "failsAt fetch (length ps) u"
  shows "buildPreviewUserMap fetch org repo ref = Some (Inr (foldl insertEvent Map.empty (eventsOf ps)))"
proof -
  from fetchPages_fail [OF assms(2), of "foldl insertEvent Map.empty (eventsOf ps)"]
  obtain t where "fetchPages fetch (0 + length ps) u (foldl insertEvent Map.empty (eventsOf ps))
      = Some (foldl insertEvent Map.empty (eventsOf ps), t)" by auto
  with fetchPages_follow [OF assms(1), of Map.empty]
  have "fetchPages fetch 0 (logUrl org repo ref) Map.empty = Some (foldl insertEvent Map.empty (eventsOf ps), t)"
    by simp
  then show ?thesis by (simp add: buildPreviewUserMap_def logUrl_def)
qed

lemma build_on_last_page:
  assumes "follow fetch 0 (logUrl org repo ref) ps = Some u"
    "fetch (length ps) u = Inr r" "ok r" "json r = Some p" "\<not> truthyOpt (links_next p)"
  shows "buildPreviewUserMap fetch org repo ref
           = Some (Inr (foldl insertEvent Map.empty (eventsOf (ps @ [p]))))"
proof -
  from fetchPages_last [of fetch "length ps" u r p "foldl insertEvent Map.empty (eventsOf ps)", OF assms(2-5)]
    fetchPages_follow [OF assms(1), of Map.empty]
  have "fetchPages fetch 0 (logUrl org repo ref) Map.empty
          = Some (foldl insertEvent (foldl insertEvent Map.empty (eventsOf ps)) (pageEvents p), None)"
    by simp
  then show ?thesis by (simp add: buildPreviewUserMap_def logUrl_def eventsOf_def)
qed

lemma insertEvent_truthy: "valuesTruthy m \<Longrightarrow> valuesTruthy (insertEvent m e)"
  by (auto simp: valuesTruthy_def insertEvent_def truthyOpt_def split: option.splits if_splits)

lemma foldl_insertEvent_truthy: "valuesTruthy m \<Longrightarrow> valuesTruthy (foldl insertEvent m es)"
  by (induction es arbitrary: m) (simp_all add: insertEvent_truthy)

lemma fetchPages_truthy:
  assumes "fetchPages fetch n url m = Some res"
  shows "valuesTruthy m \<longrightarrow> valuesTruthy (fst res)"
  using assms
proof (induction fetch n url m res rule: fetchPages.raw_induct [rotated 1, consumes 1, case_names step])
  case (step rec fetch n url userMap res)
  note 1 = step
  show ?case
  proof
    assume t: "valuesTruthy userMap"
    show "valuesTruthy (fst res)"
    proof (cases "fetch n url")
      case (Inl e)
      with 1(2) t show ?thesis by auto
    next
      case (Inr r)
      show ?thesis
      proof (cases "ok r \<and> json r \<noteq> None")
        case False
        with 1(2) Inr t show ?thesis by (auto split: if_splits option.splits)
      next
        case True
        then obtain data where d: "json r = Some data" "ok r" by auto
        let ?m = "foldl insertEvent userMap (pageEvents data)"
        have tm: "valuesTruthy ?m" using t by (rule foldl_insertEvent_truthy)
        show ?thesis
        proof (cases "truthyOpt (links_next data)")
          case True
          with 1(2) Inr d have "rec fetch (Suc n) (the (links_next data)) ?m = Some res" by simp
          from 1(1) [OF this] tm show ?thesis by simp
        next
          case False
          with 1(2) Inr d have "res = (?m, None)" by simp
          with tm show ?thesis by simp
        qed
      qed
    qed
  qed
qed

lemma build_truthy:
  "buildPreviewUserMap fetch org repo ref = Some (Inr idx) \<Longrightarrow> valuesTruthy idx"
proof -
  assume "buildPreviewUserMap fetch org repo ref = Some (Inr idx)"
  then obtain t where "fetchPages fetch 0 (logUrl org repo ref) Map.empty = Some (idx, t)"
    by (auto simp: buildPreviewUserMap_def logUrl_def split: option.splits prod.splits)
  from fetchPages_truthy [OF this] show ?thesis by (simp add: valuesTruthy_def)
qed

lemma in_endOfInput: "(u, r) \<in> set (endOfInput s) \<longleftrightarrow> s = [] \<and> r = []"
  by (auto simp: endOfInput_def)

lemma aem_match:
  "(p, r) \<in> set (AEM_PAGE_REGEX suf) \<longleftrightarrow>
     suf = ''.aem.page'' @ p \<and> r = [] \<and> (\<exists>rest. p = ''/'' @ rest \<and> list_all notLineTerminator rest)"
  unfolding AEM_PAGE_REGEX_def
  by (auto simp: in_thenP in_bindP in_lits in_manyL in_ret in_endOfInput)

lemma firstMatch_None: "firstMatch p (pre @ suf) = None \<Longrightarrow> p suf = []"
proof (induction pre)
  case Nil
  then show ?case
    by (cases suf) (auto simp: matchAt_def split: list.splits option.splits)
next
  case (Cons c pre)
  then show ?case by (auto split: option.splits)
qed

lemma sitePath_sound:
  assumes "firstMatch AEM_PAGE_REGEX s = Some p"
  shows "\<exists>pre rest. s = pre @ ''.aem.page'' @ p \<and> p = ''/'' @ rest \<and> list_all notLineTerminator rest"
proof -
  from firstMatch_Some [OF assms] obtain pre suf r where
    "s = pre @ suf" "(p, r) \<in> set (AEM_PAGE_REGEX suf)" by blast
  then show ?thesis by (auto simp: aem_match)
qed

lemma sitePath_complete:
  assumes "list_all notLineTerminator rest"
  shows "firstMatch AEM_PAGE_REGEX (pre @ ''.aem.page/'' @ rest) \<noteq> None"
proof
  assume "firstMatch AEM_PAGE_REGEX (pre @ ''.aem.page/'' @ rest) = None"
  then have "AEM_PAGE_REGEX (''.aem.page/'' @ rest) = []" by (rule firstMatch_None)
  moreover have "(''/'' @ rest, []) \<in> set (AEM_PAGE_REGEX (''.aem.page/'' @ rest))"
    using assms by (simp add: aem_match)
  ultimately show False by simp
qed

lemma enrichEntry_sameButUser: "sameButUser e (enrichEntry idx fb e)"
  by (simp add: enrichEntry_def sameButUser_def split: option.splits)

lemma enrichEntry_user:
  assumes "valuesTruthy idx"
  shows "user (enrichEntry idx fb e) =
     (case sitePath e of
        Some p \<Rightarrow> (case idx p of Some u \<Rightarrow> Some u
                   | None \<Rightarrow> if truthyOpt fb then fb else user e)
      | None \<Rightarrow> if truthyOpt fb then fb else user e)"
proof -
  have t: "truthyOpt (idx p) \<longleftrightarrow> idx p \<noteq> None" for p
    using assms by (auto simp: valuesTruthy_def truthyOpt_def split: option.splits)
  show ?thesis
    by (auto simp: enrichEntry_def sitePath_def t split: option.splits)
qed

lemma enrich_returns:
  "buildPreviewUserMap fetch org repo ref = Some (Inr idx) \<Longrightarrow>
   enrichEntriesWithUser fetch es org repo ref fb = Some (Inr (map (enrichEntry idx fb) es))"
  by (simp add: enrichEntriesWithUser_def)

text \<open>The reading does not end while every request is answered by a page with a next link.\<close>

lemma fetchPages_endless:
  assumes "fetchPages fetch n url m = Some y"
  shows "\<not> (\<forall>k u. \<exists>r p. fetch k u = Inr r \<and> ok r \<and> json r = Some p \<and> truthyOpt (links_next p))"
  using assms
proof (induction fetch n url m y rule: fetchPages.raw_induct [rotated 1, consumes 1, case_names step])
  case (step rec fetch n url m y)
  show ?case
  proof
    assume a: "\<forall>k u. \<exists>r p. fetch k u = Inr r \<and> ok r \<and> json r = Some p \<and> truthyOpt (links_next p)"
    then obtain r p where "fetch n url = Inr r" "ok r" "json r = Some p" "truthyOpt (links_next p)"
      by blast
    with step(2) have "rec fetch (Suc n) (the (links_next p)) (foldl insertEvent m (pageEvents p)) = Some y"
      by simp
    from step(1) [OF this] a show False by blast
  qed
qed

section \<open>Where the patterns match\<close>

lemma matchAt_None: "matchAt p s = None \<longleftrightarrow> p s = []"
  by (simp add: matchAt_def split: list.splits)

lemma firstMatch_leftmost:
  "firstMatch p s = Some x \<Longrightarrow>
   \<exists>pre suf r. s = pre @ suf \<and> (x, r) \<in> set (p suf)
     \<and> (\<forall>pre' suf'. s = pre' @ suf' \<and> length pre' < length pre \<longrightarrow> p suf' = [])"
proof (induction s)
  case Nil
  then obtain m where "matchAt p [] = Some m" "fst m = x" by auto
  then have "(x, snd m) \<in> set (p [])" using matchAt_Some by fastforce
  then have "[] = [] @ [] \<and> (x, snd m) \<in> set (p [])
     \<and> (\<forall>pre' suf'. [] = pre' @ suf' \<and> length pre' < length ([] :: string) \<longrightarrow> p suf' = [])"
    by simp
  then show ?case by (intro exI)
next
  case (Cons c cs)
  show ?case
  proof (cases "matchAt p (c # cs)")
    case (Some m)
    with Cons.prems have "fst m = x" by simp
    with Some have "(x, snd m) \<in> set (p (c # cs))" using matchAt_Some by fastforce
    then have "c # cs = [] @ (c # cs) \<and> (x, snd m) \<in> set (p (c # cs))
     \<and> (\<forall>pre' suf'. c # cs = pre' @ suf' \<and> length pre' < length ([] :: string) \<longrightarrow> p suf' = [])"
      by simp
    then show ?thesis by (intro exI)
  next
    case None
    then have here: "p (c # cs) = []" by (simp add: matchAt_None)
    from None Cons.prems have "firstMatch p cs = Some x" by simp
    from Cons.IH [OF this] obtain pre suf r where
      s: "cs = pre @ suf" and m: "(x, r) \<in> set (p suf)"
      and l: "\<forall>pre' suf'. cs = pre' @ suf' \<and> length pre' < length pre \<longrightarrow> p suf' = []"
      by (elim exE conjE)
    have "\<forall>pre' suf'. c # cs = pre' @ suf' \<and> length pre' < length (c # pre) \<longrightarrow> p suf' = []"
    proof (intro allI impI)
      fix pre' suf' assume a: "c # cs = pre' @ suf' \<and> length pre' < length (c # pre)"
      show "p suf' = []"
      proof (cases pre')
        case Nil
        with a here show ?thesis by simp
      next
        case (Cons d pre'')
        with a have "cs = pre'' @ suf' \<and> length pre'' < length pre" by simp
        then show ?thesis by (rule l [rule_format])
      qed
    qed
    moreover have "c # cs = (c # pre) @ suf" using s by simp
    ultimately have "c # cs = (c # pre) @ suf \<and> (x, r) \<in> set (p suf)
      \<and> (\<forall>pre' suf'. c # cs = pre' @ suf' \<and> length pre' < length (c # pre) \<longrightarrow> p suf' = [])"
      using m by (intro conjI)
    then show ?thesis by (intro exI)
  qed
qed

lemma media_hash_match_iff:
  "(h, r) \<in> set (MEDIA_HASH_REGEX suf) \<longleftrightarrow>
     suf = ''media_'' @ h @ ''.'' @ r \<and> h \<noteq> [] \<and> list_all hexDigit h"
  unfolding MEDIA_HASH_REGEX_def
  by (auto simp: in_thenP in_bindP in_lits in_many1G in_ret)

lemma extractMediaHash_leftmost:
  assumes "extractMediaHash url = Some h"
  shows "\<exists>pre post. url = pre @ ''media_'' @ h @ ''.'' @ post
     \<and> (\<forall>pre' h' post'. url = pre' @ ''media_'' @ h' @ ''.'' @ post' \<and> h' \<noteq> [] \<and> list_all hexDigit h'
            \<longrightarrow> length pre \<le> length pre')"
proof -
  from firstMatch_leftmost [OF assms [unfolded extractMediaHash_def]] obtain pre suf r where
    s: "url = pre @ suf" and m: "(h, r) \<in> set (MEDIA_HASH_REGEX suf)"
    and l: "\<forall>pre' suf'. url = pre' @ suf' \<and> length pre' < length pre \<longrightarrow> MEDIA_HASH_REGEX suf' = []"
    by (elim exE conjE)
  from m have suf: "suf = ''media_'' @ h @ ''.'' @ r" by (simp add: media_hash_match_iff)
  have "length pre \<le> length pre'"
    if "url = pre' @ ''media_'' @ h' @ ''.'' @ post' \<and> h' \<noteq> [] \<and> list_all hexDigit h'" for pre' h' post'
  proof (rule ccontr)
    assume "\<not> length pre \<le> length pre'"
    then have "length pre' < length pre" by simp
    with that have "url = pre' @ (''media_'' @ h' @ ''.'' @ post') \<and> length pre' < length pre"
      by simp
    then have "MEDIA_HASH_REGEX (''media_'' @ h' @ ''.'' @ post') = []"
      by (rule l [rule_format, of pre' "''media_'' @ h' @ ''.'' @ post'"])
    moreover from that have "(h', post') \<in> set (MEDIA_HASH_REGEX (''media_'' @ h' @ ''.'' @ post'))"
      by (simp add: media_hash_match_iff)
    ultimately show False by simp
  qed
  with s suf show ?thesis by blast
qed

lemma extractMediaHash_complete:
  assumes "h \<noteq> []" "list_all hexDigit h"
  shows "extractMediaHash (pre @ ''media_'' @ h @ ''.'' @ post) \<noteq> None"
proof
  assume "extractMediaHash (pre @ ''media_'' @ h @ ''.'' @ post) = None"
  then have "MEDIA_HASH_REGEX (''media_'' @ h @ ''.'' @ post) = []"
    unfolding extractMediaHash_def by (rule firstMatch_None)
  moreover from assms have "(h, post) \<in> set (MEDIA_HASH_REGEX (''media_'' @ h @ ''.'' @ post))"
    by (simp add: media_hash_match_iff)
  ultimately show False by simp
qed

lemma sitePath_leftmost:
  assumes "firstMatch AEM_PAGE_REGEX s = Some p"
  shows "\<exists>pre rest. s = pre @ ''.aem.page'' @ p \<and> p = ''/'' @ rest \<and> list_all notLineTerminator rest
     \<and> (\<forall>pre' rest'. s = pre' @ ''.aem.page/'' @ rest' \<and> list_all notLineTerminator rest'
            \<longrightarrow> length pre \<le> length pre')"
proof -
  from firstMatch_leftmost [OF assms] obtain pre suf r where
    s: "s = pre @ suf" and m: "(p, r) \<in> set (AEM_PAGE_REGEX suf)"
    and l: "\<forall>pre' suf'. s = pre' @ suf' \<and> length pre' < length pre \<longrightarrow> AEM_PAGE_REGEX suf' = []"
    by (elim exE conjE)
  from m obtain rest where suf: "suf = ''.aem.page'' @ p" "p = ''/'' @ rest" "list_all notLineTerminator rest"
    by (auto simp: aem_match)
  have "length pre \<le> length pre'"
    if "s = pre' @ ''.aem.page/'' @ rest' \<and> list_all notLineTerminator rest'" for pre' rest'
  proof (rule ccontr)
    assume "\<not> length pre \<le> length pre'"
    then have "length pre' < length pre" by simp
    with that have "s = pre' @ (''.aem.page/'' @ rest') \<and> length pre' < length pre"
      by simp
    then have "AEM_PAGE_REGEX (''.aem.page/'' @ rest') = []"
      by (rule l [rule_format, of pre' "''.aem.page/'' @ rest'"])
    moreover from that have "(''/'' @ rest', []) \<in> set (AEM_PAGE_REGEX (''.aem.page/'' @ rest'))"
      by (simp add: aem_match)
    ultimately show False by simp
  qed
  with s suf show ?thesis by blast
qed

section \<open>The properties of the pipeline\<close>

text \<open>
  C1: a submission with \<open>dryRun\<close> false and \<open>maxRetries\<close> 3. Let \<open>j \<le> 3\<close> be such that
  the first \<open>j\<close> requests of the submission are answered with status 403 or 429 and,
  when \<open>j < 3\<close>, the next one is not. Then \<open>sendMediaLogBatch\<close> makes \<open>j + 1\<close> requests,
  waits after each of the first \<open>j\<close> (1000, 2000 and 4000 milliseconds after
  attempts 0, 1 and 2), and ends as the last request decides: success on a 2xx
  status, a thrown error otherwise. Such a \<open>j\<close> exists for every behaviour of the
  service, so there are at most 3 retries and 4 requests. When attempts 0 and 1
  are rate-limited and attempt 2 succeeds, the waits are exactly 1000 and 2000, the
  call returns success, and the turn of the delivery loop counts the batch as sent
  and leaves the failure file as it was.
\<close>

theorem send_retry_machine:
  "(\<forall>j \<le> 3.
      (\<forall>i<j. rateLimited (fetch (requests w + i) (medialogUrl org repo ref)))
      \<and> (j < 3 \<longrightarrow> \<not> rateLimited (fetch (requests w + j) (medialogUrl org repo ref)))
      \<longrightarrow> sendMediaLogBatch fetch org repo ref False 3 w =
            (settle (fetch (requests w + j) (medialogUrl org repo ref)),
             w\<lparr>requests := requests w + j + 1, sleeps := sleeps w @ take j [1000, 2000, 4000]\<rparr>))
   \<and> (\<exists>j \<le> 3. snd (sendMediaLogBatch fetch org repo ref False 3 w) =
             w\<lparr>requests := requests w + j + 1, sleeps := sleeps w @ take j [1000, 2000, 4000]\<rparr>)
   \<and> (\<forall>r. rateLimited (fetch (requests w) (medialogUrl org repo ref))
        \<and> rateLimited (fetch (requests w + 1) (medialogUrl org repo ref))
        \<and> fetch (requests w + 2) (medialogUrl org repo ref) = Inr r \<and> ok r
        \<longrightarrow> sendMediaLogBatch fetch org repo ref False 3 w =
              (Inr (Success False (status r)),
               w\<lparr>requests := requests w + 3, sleeps := sleeps w @ [1000, 2000]\<rparr>)
            \<and> fst (deliverBatch fetch org repo ref False numBatches index batch (st, w))
                = st\<lparr>batchesSent := batchesSent st + 1\<rparr>
            \<and> failureFile (snd (deliverBatch fetch org repo ref False numBatches index batch (st, w)))
                = failureFile w)"
proof -
  let ?u = "medialogUrl org repo ref"
  let ?RL = "\<lambda>k. rateLimited (fetch (requests w + k) ?u)"
  have run: "sendMediaLogBatch fetch org repo ref False 3 w =
            (settle (fetch (requests w + j) ?u),
             w\<lparr>requests := requests w + j + 1, sleeps := sleeps w @ take j [1000, 2000, 4000]\<rparr>)"
    if "j \<le> 3" "\<forall>i<j. ?RL i" "j < 3 \<longrightarrow> \<not> ?RL j" for j
  proof -
    have "sendLoop fetch ?u 3 0 w =
           (settle (fetch (requests w + j) ?u),
            w\<lparr>requests := requests w + j + 1,
              sleeps := sleeps w @ map (\<lambda>i. 2 ^ (0 + i) * 1000) [0..<j]\<rparr>)"
      using that by (intro sendLoop_run) simp_all
    then show ?thesis
      using that(1) by (simp only: backoffs_three sendMediaLogBatch_def medialogUrl_def if_False)
  qed
  have ex: "\<exists>j \<le> 3. (\<forall>i<j. ?RL i) \<and> (j < 3 \<longrightarrow> \<not> ?RL j)"
  proof (cases "?RL 0")
    case False
    then show ?thesis by (intro exI [of _ 0]) simp
  next
    case r0: True
    show ?thesis
    proof (cases "?RL 1")
      case False
      with r0 show ?thesis by (intro exI [of _ 1]) simp
    next
      case r1: True
      show ?thesis
      proof (cases "?RL 2")
        case False
        with r0 r1 show ?thesis by (intro exI [of _ 2]) (simp add: less_Suc_eq numeral_2_eq_2)
      next
        case r2: True
        with r0 r1 show ?thesis
          by (intro exI [of _ 3]) (simp add: less_Suc_eq numeral_2_eq_2 numeral_3_eq_3)
      qed
    qed
  qed
  have c1: "\<forall>j \<le> 3. (\<forall>i<j. ?RL i) \<and> (j < 3 \<longrightarrow> \<not> ?RL j)
      \<longrightarrow> sendMediaLogBatch fetch org repo ref False 3 w =
            (settle (fetch (requests w + j) ?u),
             w\<lparr>requests := requests w + j + 1, sleeps := sleeps w @ take j [1000, 2000, 4000]\<rparr>)"
    using run by blast
  have c2: "\<exists>j \<le> 3. snd (sendMediaLogBatch fetch org repo ref False 3 w) =
             w\<lparr>requests := requests w + j + 1, sleeps := sleeps w @ take j [1000, 2000, 4000]\<rparr>"
  proof -
    from ex obtain j where j: "j \<le> 3" "\<forall>i<j. ?RL i" "j < 3 \<longrightarrow> \<not> ?RL j" by blast
    from run [OF j] have "snd (sendMediaLogBatch fetch org repo ref False 3 w) =
             w\<lparr>requests := requests w + j + 1, sleeps := sleeps w @ take j [1000, 2000, 4000]\<rparr>"
      by simp
    with j(1) show ?thesis by blast
  qed
  have c3: "sendMediaLogBatch fetch org repo ref False 3 w =
              (Inr (Success False (status r)),
               w\<lparr>requests := requests w + 3, sleeps := sleeps w @ [1000, 2000]\<rparr>)
            \<and> fst (deliverBatch fetch org repo ref False numBatches index batch (st, w))
                = st\<lparr>batchesSent := batchesSent st + 1\<rparr>
            \<and> failureFile (snd (deliverBatch fetch org repo ref False numBatches index batch (st, w)))
                = failureFile w"
    if h: "?RL 0" "?RL 1" "fetch (requests w + 2) ?u = Inr r" "ok r" for r
  proof -
    have nrl: "\<not> ?RL 2" using h(3,4) by (auto simp: rateLimited_def ok_def)
    have all: "\<forall>i<2. ?RL i" using h(1,2) by (simp add: less_Suc_eq numeral_2_eq_2)
    from run [of 2] all nrl
    have s: "sendMediaLogBatch fetch org repo ref False 3 w =
              (Inr (Success False (status r)),
               w\<lparr>requests := requests w + 3, sleeps := sleeps w @ [1000, 2000]\<rparr>)"
      using h(3,4) by (simp add: settle_def)
    from deliverBatch_sent [OF s] s show ?thesis by blast
  qed
  from c1 c2 c3 show ?thesis by simp
qed

theorem send_retry_machine_witness:
  "rateLimited ((\<lambda>(n::nat) url. Inr \<lparr>status = (if n < 2 then 429 else 200), body_text = [], json = None\<rparr>) 0 (medialogUrl ''o'' ''r'' ''main''))
   \<and> rateLimited ((\<lambda>(n::nat) url. Inr \<lparr>status = (if n < 2 then 429 else 200), body_text = [], json = None\<rparr>) 1 (medialogUrl ''o'' ''r'' ''main''))
   \<and> ok \<lparr>status = 200, body_text = [], json = None\<rparr>
   \<and> sendMediaLogBatch (\<lambda>n url. Inr \<lparr>status = (if n < 2 then 429 else 200), body_text = [], json = None\<rparr>)
        ''o'' ''r'' ''main'' False 3
        \<lparr>requests = 0, sleeps = [], failureFile = (Missing :: entry failure_file), writeFails = False, fileAfterFailedWrite = Unusable, clock = ''t''\<rparr>
      = (Inr (Success False 200),
         \<lparr>requests = 3, sleeps = [1000, 2000], failureFile = Missing, writeFails = False, fileAfterFailedWrite = Unusable, clock = ''t''\<rparr>)"
proof -
  let ?f = "\<lambda>(n::nat) (url::string). (Inr \<lparr>status = (if n < 2 then 429 else 200), body_text = [], json = None\<rparr> :: js_error + response)"
  let ?w = "\<lparr>requests = 0, sleeps = [], failureFile = (Missing :: entry failure_file), writeFails = False, fileAfterFailedWrite = Unusable, clock = ''t''\<rparr>"
  have a: "rateLimited (?f (requests ?w) (medialogUrl ''o'' ''r'' ''main''))" by (simp add: rateLimited_def)
  have b: "rateLimited (?f (requests ?w + 1) (medialogUrl ''o'' ''r'' ''main''))" by (simp add: rateLimited_def)
  have c: "?f (requests ?w + 2) (medialogUrl ''o'' ''r'' ''main'') = Inr \<lparr>status = 200, body_text = [], json = None\<rparr>" by simp
  have d: "ok \<lparr>status = 200, body_text = [], json = None\<rparr>" by (simp add: ok_def)
  from send_retry_machine [of ?f ?w "''o''" "''r''" "''main''"] a b c d
  have "sendMediaLogBatch ?f ''o'' ''r'' ''main'' False 3 ?w =
          (Inr (Success False (status \<lparr>status = 200, body_text = [], json = None\<rparr>)),
           ?w\<lparr>requests := requests ?w + 3, sleeps := sleeps ?w @ [1000, 2000]\<rparr>)"
    by blast
  with a b d show ?thesis by simp
qed

text \<open>
  C2: the deduplication pass takes the content hash of a record from its path with
  \<open>extractMediaHash\<close>, whose pattern is \<open>media_\<close>, a non-empty run of the characters
  \<open>a-f0-9\<close>, and a dot: a path has a hash exactly when the pattern occurs in it, and
  the hash is the run of its first occurrence. For every list and every hash that occurs in it, the records
  with that hash are, in the order of the list, one record marked \<open>ingest\<close> (first
  seen) followed by records all marked \<open>reuse\<close>, one fewer than the hash has
  occurrences. Every record whose path has no hash is marked \<open>ingest\<close>.
\<close>

theorem dedup_first_seen_once:
  "(\<forall>h. withHash h es \<noteq> [] \<longrightarrow>
       (\<exists>e rest. withHash h (deduplicatedEntries es) = e # rest
          \<and> firstSeen e \<and> list_all reused rest \<and> \<not> reused e \<and> \<not> list_ex firstSeen rest
          \<and> length rest = length (withHash h es) - 1))
   \<and> (\<forall>e \<in> set (deduplicatedEntries es). hashOf e = None \<longrightarrow> firstSeen e)
   \<and> (\<forall>e h. hashOf e = Some h \<longrightarrow>
         h \<noteq> [] \<and> list_all hexDigit h
         \<and> (\<exists>pre post. path e = pre @ ''media_'' @ h @ ''.'' @ post
              \<and> (\<forall>pre' h' post'. path e = pre' @ ''media_'' @ h' @ ''.'' @ post'
                     \<and> h' \<noteq> [] \<and> list_all hexDigit h' \<longrightarrow> length pre \<le> length pre')))
   \<and> (\<forall>e pre h post. path e = pre @ ''media_'' @ h @ ''.'' @ post \<and> h \<noteq> [] \<and> list_all hexDigit h
         \<longrightarrow> hashOf e \<noteq> None)"
proof (intro conjI allI impI ballI)
  fix h :: string
  assume ne: "withHash h es \<noteq> []"
  then obtain e rest where er: "withHash h es = e # rest" by (cases "withHash h es") auto
  have "withHash h (deduplicatedEntries es) =
          e\<lparr>operation := Some ''ingest''\<rparr> # map (\<lambda>e. e\<lparr>operation := Some ''reuse''\<rparr>) rest"
    unfolding deduplicatedEntries_def by (simp add: withHash_dedup er)
  then show "\<exists>e rest. withHash h (deduplicatedEntries es) = e # rest
          \<and> firstSeen e \<and> list_all reused rest \<and> \<not> reused e \<and> \<not> list_ex firstSeen rest
          \<and> length rest = length (withHash h es) - 1"
    by (simp add: er firstSeen_def reused_def list_all_iff list_ex_iff)
next
  fix e :: "'a entry_scheme"
  assume "e \<in> set (deduplicatedEntries es)" "hashOf e = None"
  then show "firstSeen e" unfolding deduplicatedEntries_def by (rule dedup_no_hash)
next
  fix e :: "'b entry_scheme" and h
  assume h: "hashOf e = Some h"
  then have *: "h \<noteq> [] \<and> list_all hexDigit h \<and> (\<exists>pre post. path e = pre @ ''media_'' @ h @ ''.'' @ post)"
    unfolding hashOf_def by (rule extractMediaHash_Some)
  from * show "h \<noteq> []" by simp
  from * show "list_all hexDigit h" by simp
  from h show "\<exists>pre post. path e = pre @ ''media_'' @ h @ ''.'' @ post
              \<and> (\<forall>pre' h' post'. path e = pre' @ ''media_'' @ h' @ ''.'' @ post'
                     \<and> h' \<noteq> [] \<and> list_all hexDigit h' \<longrightarrow> length pre \<le> length pre')"
    unfolding hashOf_def by (rule extractMediaHash_leftmost)
next
  fix e :: "'c entry_scheme" and pre h post
  assume a: "path e = pre @ ''media_'' @ h @ ''.'' @ post \<and> h \<noteq> [] \<and> list_all hexDigit h"
  then have "extractMediaHash (pre @ ''media_'' @ h @ ''.'' @ post) \<noteq> None"
    by (intro extractMediaHash_complete) simp_all
  with a show "hashOf e \<noteq> None" by (simp add: hashOf_def)
qed

theorem dedup_first_seen_once_witness:
  "withHash ''ab12''
      [\<lparr>action = None, path = ''/a/media_ab12.png'', sourcePath = None, alt = None, operation = None, user = None\<rparr>,
       \<lparr>action = None, path = ''/img/p1_abc123.png'', sourcePath = None, alt = None, operation = None, user = None\<rparr>,
       \<lparr>action = None, path = ''/b/media_ab12.png#x'', sourcePath = None, alt = None, operation = None, user = None\<rparr>] \<noteq> []
   \<and> (\<exists>e rest. withHash ''ab12'' (deduplicatedEntries
      [\<lparr>action = None, path = ''/a/media_ab12.png'', sourcePath = None, alt = None, operation = None, user = None\<rparr>,
       \<lparr>action = None, path = ''/img/p1_abc123.png'', sourcePath = None, alt = None, operation = None, user = None\<rparr>,
       \<lparr>action = None, path = ''/b/media_ab12.png#x'', sourcePath = None, alt = None, operation = None, user = None\<rparr>]) = e # rest
          \<and> firstSeen e \<and> list_all reused rest \<and> length rest = 1)"
proof -
  let ?es = "[\<lparr>action = None, path = ''/a/media_ab12.png'', sourcePath = None, alt = None, operation = None, user = None\<rparr>,
       \<lparr>action = None, path = ''/img/p1_abc123.png'', sourcePath = None, alt = None, operation = None, user = None\<rparr>,
       \<lparr>action = None, path = ''/b/media_ab12.png#x'', sourcePath = None, alt = None, operation = None, user = None\<rparr>]"
  have ne: "withHash ''ab12'' ?es \<noteq> []" by code_simp
  have len: "length (withHash ''ab12'' ?es) - 1 = 1" by code_simp
  from dedup_first_seen_once [of ?es] ne len show ?thesis by auto
qed

text \<open>
  C3: for every markdown document the extractor returns at most one record for each
  url: the paths of the records are pairwise different. The urls of the records are
  the urls handed to \<open>addMedia\<close> by the three loops (inline images, then
  reference-style images, then plain links to videos and documents), and each record
  comes from the first of these calls with its url: its alt text is the trimmed alt
  text of that first call, and it has none when that is empty.
\<close>

theorem extract_once_per_url:
  "distinct (map path (extractMediaReferences md sp org repo ref))
   \<and> path ` set (extractMediaReferences md sp org repo ref) = fst ` set (candidates md)
   \<and> (\<forall>e \<in> set (extractMediaReferences md sp org repo ref).
        \<exists>a. find (\<lambda>c. fst c = path e) (candidates md) = Some (path e, a)
             \<and> alt e = (if trim a = [] then None else Some (trim a))
             \<and> action e = Some ''add'' \<and> sourcePath e = Some (pageUrl sp org repo ref)
             \<and> operation e = None \<and> user e = None)"
proof (intro conjI ballI)
  show "distinct (map path (extractMediaReferences md sp org repo ref))"
    by (rule extract_distinct)
  show "path ` set (extractMediaReferences md sp org repo ref) = fst ` set (candidates md)"
    by (rule extract_paths)
next
  fix e assume "e \<in> set (extractMediaReferences md sp org repo ref)"
  from extract_origin [OF this] obtain a where
    f: "find (\<lambda>c. fst c = path e) (candidates md) = Some (path e, a)"
    and e: "e = mediaEntry (pageUrl sp org repo ref) (path e) a" by (elim exE conjE)
  note m = fields_mediaEntry [of "pageUrl sp org repo ref" "path e" a]
  have "alt e = (if trim a = [] then None else Some (trim a))
             \<and> action e = Some ''add'' \<and> sourcePath e = Some (pageUrl sp org repo ref)
             \<and> operation e = None \<and> user e = None"
    by (subst (1 2 3 4 5) e) (rule m)
  with f show "\<exists>a. find (\<lambda>c. fst c = path e) (candidates md) = Some (path e, a)
             \<and> alt e = (if trim a = [] then None else Some (trim a))
             \<and> action e = Some ''add'' \<and> sourcePath e = Some (pageUrl sp org repo ref)
             \<and> operation e = None \<and> user e = None"
    by (intro exI [of _ a] conjI) simp_all
qed

theorem extract_once_per_url_witness:
  \<open>candidates ''![A](u.png)\<newline>![B][r]\<newline>[r]: u.png "T"'' = [(''u.png'', ''A''), (''u.png'', ''T'')]
   \<and> extractMediaReferences ''![A](u.png)\<newline>![B][r]\<newline>[r]: u.png "T"'' ''/p'' ''o'' ''r'' ''main''
       = [\<lparr> action = Some ''add'', path = ''u.png'',
            sourcePath = Some ''https://main--r--o.aem.page/p'',
            alt = Some ''A'', operation = None, user = None \<rparr>]
   \<and> distinct (map path (extractMediaReferences ''![A](u.png)\<newline>![B][r]\<newline>[r]: u.png "T"'' ''/p'' ''o'' ''r'' ''main''))
   \<and> path ` set (extractMediaReferences ''![A](u.png)\<newline>![B][r]\<newline>[r]: u.png "T"'' ''/p'' ''o'' ''r'' ''main'')
       = fst ` set (candidates ''![A](u.png)\<newline>![B][r]\<newline>[r]: u.png "T"'')
   \<and> (\<exists>a. find (\<lambda>c. fst c = ''u.png'') (candidates ''![A](u.png)\<newline>![B][r]\<newline>[r]: u.png "T"'')
              = Some (''u.png'', a)
          \<and> Some ''A'' = (if trim a = [] then None else Some (trim a)))\<close>
proof -
  have c: \<open>candidates ''![A](u.png)\<newline>![B][r]\<newline>[r]: u.png "T"'' = [(''u.png'', ''A''), (''u.png'', ''T'')]\<close>
    by code_simp
  have x: \<open>extractMediaReferences ''![A](u.png)\<newline>![B][r]\<newline>[r]: u.png "T"'' ''/p'' ''o'' ''r'' ''main''
       = [\<lparr> action = Some ''add'', path = ''u.png'',
            sourcePath = Some ''https://main--r--o.aem.page/p'',
            alt = Some ''A'', operation = None, user = None \<rparr>]\<close>
    by code_simp
  note inst = extract_once_per_url [of \<open>''![A](u.png)\<newline>![B][r]\<newline>[r]: u.png "T"''\<close> "''/p''" "''o''" "''r''" "''main''"]
  from inst have d: \<open>distinct (map path (extractMediaReferences ''![A](u.png)\<newline>![B][r]\<newline>[r]: u.png "T"'' ''/p'' ''o'' ''r'' ''main''))\<close>
    by (elim conjE)
  from inst have p: \<open>path ` set (extractMediaReferences ''![A](u.png)\<newline>![B][r]\<newline>[r]: u.png "T"'' ''/p'' ''o'' ''r'' ''main'')
       = fst ` set (candidates ''![A](u.png)\<newline>![B][r]\<newline>[r]: u.png "T"'')\<close>
    by (elim conjE)
  from inst have \<open>\<forall>e \<in> set (extractMediaReferences ''![A](u.png)\<newline>![B][r]\<newline>[r]: u.png "T"'' ''/p'' ''o'' ''r'' ''main'').
        \<exists>a. find (\<lambda>c. fst c = path e) (candidates ''![A](u.png)\<newline>![B][r]\<newline>[r]: u.png "T"'') = Some (path e, a)
             \<and> alt e = (if trim a = [] then None else Some (trim a))\<close>
    by blast
  then have f: \<open>\<exists>a. find (\<lambda>c. fst c = ''u.png'') (candidates ''![A](u.png)\<newline>![B][r]\<newline>[r]: u.png "T"'')
              = Some (''u.png'', a)
          \<and> Some ''A'' = (if trim a = [] then None else Some (trim a))\<close>
    unfolding x by simp
  from c x d p f show ?thesis by (intro conjI)
qed

text \<open>
  C4: \<open>buildPreviewUserMap\<close> never throws to its caller. When the service has answered
  some requests with pages that have a next link and the request after them fails
  (the request is rejected, the status is not a success, 403 among them, or the body
  cannot be read), the function returns the index built from those pages, which is
  empty when there are none; a page without a next link ends the reading with that
  page included. The index built from a feed of events gives, for every path, the
  user of the first event of the feed that is a preview with that path and with a
  user: only such events are inserted, and a path already in the index is kept.
\<close>

theorem user_index_partial:
  "(\<forall>e. buildPreviewUserMap fetch org repo ref \<noteq> Some (Inl e))
   \<and> (\<forall>ps u. follow fetch 0 (logUrl org repo ref) ps = Some u \<and> failsAt fetch (length ps) u \<longrightarrow>
         buildPreviewUserMap fetch org repo ref
           = Some (Inr (foldl insertEvent Map.empty (eventsOf ps))))
   \<and> (\<forall>ps u r p. follow fetch 0 (logUrl org repo ref) ps = Some u
         \<and> fetch (length ps) u = Inr r \<and> ok r \<and> json r = Some p \<and> \<not> truthyOpt (links_next p) \<longrightarrow>
         buildPreviewUserMap fetch org repo ref
           = Some (Inr (foldl insertEvent Map.empty (eventsOf (ps @ [p])))))
   \<and> (\<forall>es p. foldl insertEvent Map.empty es p =
         (case find (\<lambda>e. qualifies e \<and> event_path e = Some p) es of
            Some e \<Rightarrow> event_user e | None \<Rightarrow> None))"
proof (intro conjI allI impI)
  fix e show "buildPreviewUserMap fetch org repo ref \<noteq> Some (Inl e)" by (rule build_never_raises)
next
  fix ps u
  assume "follow fetch 0 (logUrl org repo ref) ps = Some u \<and> failsAt fetch (length ps) u"
  then show "buildPreviewUserMap fetch org repo ref
           = Some (Inr (foldl insertEvent Map.empty (eventsOf ps)))"
    using build_on_failure by blast
next
  fix ps u r p
  assume "follow fetch 0 (logUrl org repo ref) ps = Some u
         \<and> fetch (length ps) u = Inr r \<and> ok r \<and> json r = Some p \<and> \<not> truthyOpt (links_next p)"
  then show "buildPreviewUserMap fetch org repo ref
           = Some (Inr (foldl insertEvent Map.empty (eventsOf (ps @ [p]))))"
    using build_on_last_page by blast
next
  fix es p
  show "foldl insertEvent Map.empty es p =
         (case find (\<lambda>e. qualifies e \<and> event_path e = Some p) es of
            Some e \<Rightarrow> event_user e | None \<Rightarrow> None)"
    by (simp add: foldl_insertEvent_lookup)
qed

theorem user_index_partial_witness:
  "follow (\<lambda>n url. if n = 0
             then Inr \<lparr>status = 200, body_text = [], json = Some \<lparr>page_entries = Some
                    [\<lparr>event_route = Some ''live'', event_path = Some ''/a'', event_user = Some ''carol''\<rparr>,
                     \<lparr>event_route = Some ''preview'', event_path = Some ''/a'', event_user = Some ''alice''\<rparr>,
                     \<lparr>event_route = Some ''preview'', event_path = Some ''/a'', event_user = Some ''bob''\<rparr>],
                    links_next = Some ''page2''\<rparr>\<rparr>
             else Inr \<lparr>status = 403, body_text = [], json = None\<rparr>)
      0 (logUrl ''o'' ''r'' ''main'')
      [\<lparr>page_entries = Some
          [\<lparr>event_route = Some ''live'', event_path = Some ''/a'', event_user = Some ''carol''\<rparr>,
           \<lparr>event_route = Some ''preview'', event_path = Some ''/a'', event_user = Some ''alice''\<rparr>,
           \<lparr>event_route = Some ''preview'', event_path = Some ''/a'', event_user = Some ''bob''\<rparr>],
         links_next = Some ''page2''\<rparr>] = Some ''page2''
   \<and> (\<exists>idx. buildPreviewUserMap (\<lambda>n url. if n = 0
             then Inr \<lparr>status = 200, body_text = [], json = Some \<lparr>page_entries = Some
                    [\<lparr>event_route = Some ''live'', event_path = Some ''/a'', event_user = Some ''carol''\<rparr>,
                     \<lparr>event_route = Some ''preview'', event_path = Some ''/a'', event_user = Some ''alice''\<rparr>,
                     \<lparr>event_route = Some ''preview'', event_path = Some ''/a'', event_user = Some ''bob''\<rparr>],
                    links_next = Some ''page2''\<rparr>\<rparr>
             else Inr \<lparr>status = 403, body_text = [], json = None\<rparr>) ''o'' ''r'' ''main'' = Some (Inr idx)
          \<and> idx ''/a'' = Some ''alice'' \<and> idx ''/b'' = None)"
proof -
  let ?evs = "[\<lparr>event_route = Some ''live'', event_path = Some ''/a'', event_user = Some ''carol''\<rparr>,
               \<lparr>event_route = Some ''preview'', event_path = Some ''/a'', event_user = Some ''alice''\<rparr>,
               \<lparr>event_route = Some ''preview'', event_path = Some ''/a'', event_user = Some ''bob''\<rparr>]"
  let ?p = "\<lparr>page_entries = Some ?evs, links_next = Some ''page2''\<rparr>"
  let ?f = "\<lambda>(n::nat) (url::string). if n = 0
             then (Inr \<lparr>status = 200, body_text = [], json = Some ?p\<rparr> :: js_error + response)
             else Inr \<lparr>status = 403, body_text = [], json = None\<rparr>"
  have a: "follow ?f 0 (logUrl ''o'' ''r'' ''main'') [?p] = Some ''page2''"
    by (simp add: ok_def truthyOpt_def truthy_def)
  have b: "failsAt ?f (length [?p]) ''page2''" by (simp add: failsAt_def ok_def)
  note inst = user_index_partial [of ?f "''o''" "''r''" "''main''"]
  from inst a b have c: "buildPreviewUserMap ?f ''o'' ''r'' ''main''
      = Some (Inr (foldl insertEvent Map.empty (eventsOf [?p])))" by blast
  from inst have d: "foldl insertEvent Map.empty (eventsOf [?p]) q =
         (case find (\<lambda>e. qualifies e \<and> event_path e = Some q) (eventsOf [?p]) of
            Some e \<Rightarrow> event_user e | None \<Rightarrow> None)" for q by blast
  have "foldl insertEvent Map.empty (eventsOf [?p]) ''/a'' = Some ''alice''"
    unfolding d by (simp add: eventsOf_def pageEvents_def qualifies_def truthyOpt_def truthy_def)
  moreover have "foldl insertEvent Map.empty (eventsOf [?p]) ''/b'' = None"
    unfolding d by (simp add: eventsOf_def pageEvents_def qualifies_def truthyOpt_def truthy_def)
  ultimately show ?thesis using a c by blast
qed

text \<open>
  C5: let the index be what \<open>buildPreviewUserMap\<close> returned. Then the enrichment returns
  (it does not throw), with one record for each record of the list, and the user of
  each is decided as follows. A record with a \<open>sourcePath\<close> from which the pattern
  \<open>.aem.page\<close>, a slash and the rest of the text takes a path, that path being
  in the index, gets the user found. In every other case (the path is not in the
  index, the \<open>sourcePath\<close> does not have the shape of the pattern, or the record has no
  \<open>sourcePath\<close>) the record gets the fallback user when one is configured, and keeps
  the user field it had (none, after extraction) when none is. The path taken is
  what follows the first \<open>.aem.page\<close> of the \<open>sourcePath\<close> that has a slash and no line
  break after it, from the slash to the end; every text with such an occurrence has
  a path.
\<close>

theorem enrich_attribution:
  assumes "buildPreviewUserMap fetch org repo ref = Some (Inr idx)"
  shows "\<exists>out. enrichEntriesWithUser fetch es org repo ref fb = Some (Inr out)
     \<and> length out = length es
     \<and> (\<forall>i<length es.
          (\<forall>p u. sitePath (es ! i) = Some p \<and> idx p = Some u \<longrightarrow> user (out ! i) = Some u)
        \<and> (\<forall>p. sitePath (es ! i) = Some p \<and> idx p = None \<longrightarrow>
              user (out ! i) = (if truthyOpt fb then fb else user (es ! i)))
        \<and> (truthyOpt (sourcePath (es ! i))
             \<and> firstMatch AEM_PAGE_REGEX (the (sourcePath (es ! i))) = None \<longrightarrow>
              user (out ! i) = (if truthyOpt fb then fb else user (es ! i)))
        \<and> (\<not> truthyOpt (sourcePath (es ! i)) \<longrightarrow>
              user (out ! i) = (if truthyOpt fb then fb else user (es ! i))))
     \<and> (\<forall>s p. firstMatch AEM_PAGE_REGEX s = Some p \<longrightarrow>
           (\<exists>pre rest. s = pre @ ''.aem.page'' @ p \<and> p = ''/'' @ rest
              \<and> list_all notLineTerminator rest
              \<and> (\<forall>pre' rest'. s = pre' @ ''.aem.page/'' @ rest' \<and> list_all notLineTerminator rest'
                     \<longrightarrow> length pre \<le> length pre')))
     \<and> (\<forall>pre rest. list_all notLineTerminator rest \<longrightarrow>
           firstMatch AEM_PAGE_REGEX (pre @ ''.aem.page/'' @ rest) \<noteq> None)"
proof -
  let ?out = "map (enrichEntry idx fb) es"
  have r: "enrichEntriesWithUser fetch es org repo ref fb = Some (Inr ?out)"
    using assms by (rule enrich_returns)
  have t: "valuesTruthy idx" using assms by (rule build_truthy)
  have u: "user (?out ! i) =
     (case sitePath (es ! i) of
        Some p \<Rightarrow> (case idx p of Some u \<Rightarrow> Some u
                   | None \<Rightarrow> if truthyOpt fb then fb else user (es ! i))
      | None \<Rightarrow> if truthyOpt fb then fb else user (es ! i))" if "i < length es" for i
    using that enrichEntry_user [OF t, of fb "es ! i"] by simp
  have per: "(\<forall>p u. sitePath (es ! i) = Some p \<and> idx p = Some u \<longrightarrow> user (?out ! i) = Some u)
        \<and> (\<forall>p. sitePath (es ! i) = Some p \<and> idx p = None \<longrightarrow>
              user (?out ! i) = (if truthyOpt fb then fb else user (es ! i)))
        \<and> (truthyOpt (sourcePath (es ! i))
             \<and> firstMatch AEM_PAGE_REGEX (the (sourcePath (es ! i))) = None \<longrightarrow>
              user (?out ! i) = (if truthyOpt fb then fb else user (es ! i)))
        \<and> (\<not> truthyOpt (sourcePath (es ! i)) \<longrightarrow>
              user (?out ! i) = (if truthyOpt fb then fb else user (es ! i)))" if "i < length es" for i
    unfolding u [OF that] by (auto simp: sitePath_def)
  have s1: "\<forall>s p. firstMatch AEM_PAGE_REGEX s = Some p \<longrightarrow>
           (\<exists>pre rest. s = pre @ ''.aem.page'' @ p \<and> p = ''/'' @ rest
              \<and> list_all notLineTerminator rest
              \<and> (\<forall>pre' rest'. s = pre' @ ''.aem.page/'' @ rest' \<and> list_all notLineTerminator rest'
                     \<longrightarrow> length pre \<le> length pre'))"
    by (intro allI impI) (rule sitePath_leftmost)
  have s2: "\<forall>pre rest. list_all notLineTerminator rest \<longrightarrow>
           firstMatch AEM_PAGE_REGEX (pre @ ''.aem.page/'' @ rest) \<noteq> None"
    using sitePath_complete by blast
  have len: "length ?out = length es" by simp
  have every: "\<forall>i<length es.
          (\<forall>p u. sitePath (es ! i) = Some p \<and> idx p = Some u \<longrightarrow> user (?out ! i) = Some u)
        \<and> (\<forall>p. sitePath (es ! i) = Some p \<and> idx p = None \<longrightarrow>
              user (?out ! i) = (if truthyOpt fb then fb else user (es ! i)))
        \<and> (truthyOpt (sourcePath (es ! i))
             \<and> firstMatch AEM_PAGE_REGEX (the (sourcePath (es ! i))) = None \<longrightarrow>
              user (?out ! i) = (if truthyOpt fb then fb else user (es ! i)))
        \<and> (\<not> truthyOpt (sourcePath (es ! i)) \<longrightarrow>
              user (?out ! i) = (if truthyOpt fb then fb else user (es ! i)))"
    using per by blast
  from r len every s1 s2 show ?thesis by (intro exI [of _ ?out] conjI)
qed

theorem enrich_attribution_witness:
  "buildPreviewUserMap (\<lambda>n url. if n = 0
       then Inr \<lparr>status = 200, body_text = [], json = Some \<lparr>page_entries = Some
              [\<lparr>event_route = Some ''preview'', event_path = Some ''/products/x'', event_user = Some ''alice''\<rparr>],
              links_next = None\<rparr>\<rparr>
       else Inl (Error ''offline'')) ''o'' ''r'' ''main''
     = Some (Inr (foldl insertEvent Map.empty
         [\<lparr>event_route = Some ''preview'', event_path = Some ''/products/x'', event_user = Some ''alice''\<rparr>]))
   \<and> (\<exists>out. enrichEntriesWithUser (\<lambda>n url. if n = 0
       then Inr \<lparr>status = 200, body_text = [], json = Some \<lparr>page_entries = Some
              [\<lparr>event_route = Some ''preview'', event_path = Some ''/products/x'', event_user = Some ''alice''\<rparr>],
              links_next = None\<rparr>\<rparr>
       else Inl (Error ''offline''))
         [mediaEntry ''https://main--r--o.aem.page/products/x'' ''img/a.png'' [],
          mediaEntry ''https://main--r--o.aem.page/other'' ''img/b.png'' [],
          mediaEntry ''not-a-page-url'' ''img/c.png'' []]
         ''o'' ''r'' ''main'' (Some ''bot'') = Some (Inr out)
       \<and> map user out = [Some ''alice'', Some ''bot'', Some ''bot''])"
proof -
  let ?ev = "\<lparr>event_route = Some ''preview'', event_path = Some ''/products/x'', event_user = Some ''alice''\<rparr>"
  let ?f = "\<lambda>(n::nat) (url::string). if n = 0
       then (Inr \<lparr>status = 200, body_text = [], json = Some \<lparr>page_entries = Some [?ev],
              links_next = None\<rparr>\<rparr> :: js_error + response)
       else Inl (Error ''offline'')"
  let ?es = "[mediaEntry ''https://main--r--o.aem.page/products/x'' ''img/a.png'' [],
          mediaEntry ''https://main--r--o.aem.page/other'' ''img/b.png'' [],
          mediaEntry ''not-a-page-url'' ''img/c.png'' []]"
  let ?idx = "foldl insertEvent Map.empty [?ev]"
  have b: "buildPreviewUserMap ?f ''o'' ''r'' ''main'' = Some (Inr ?idx)"
    unfolding buildPreviewUserMap_def
    by (subst fetchPages.simps) (simp add: ok_def truthyOpt_def pageEvents_def)
  from enrich_attribution [OF b, of ?es "Some ''bot''"]
  have ex: "\<exists>out. enrichEntriesWithUser ?f ?es ''o'' ''r'' ''main'' (Some ''bot'') = Some (Inr out)"
    by (elim exE conjE, intro exI)
  have rr: "enrichEntriesWithUser ?f ?es ''o'' ''r'' ''main'' (Some ''bot'')
              = Some (Inr (map (enrichEntry ?idx (Some ''bot'')) ?es))"
    using b by (rule enrich_returns)
  have us: "map user (map (enrichEntry ?idx (Some ''bot'')) ?es) = [Some ''alice'', Some ''bot'', Some ''bot'']"
    by code_simp
  from ex obtain out where o: "enrichEntriesWithUser ?f ?es ''o'' ''r'' ''main'' (Some ''bot'') = Some (Inr out)" ..
  from o rr have "out = map (enrichEntry ?idx (Some ''bot'')) ?es" by (simp only: option.inject sum.inject)
  with us have "map user out = [Some ''alice'', Some ''bot'', Some ''bot'']" by (simp only:)
  with o have "\<exists>out. enrichEntriesWithUser ?f ?es ''o'' ''r'' ''main'' (Some ''bot'') = Some (Inr out)
       \<and> map user out = [Some ''alice'', Some ''bot'', Some ''bot'']" by (intro exI conjI)
  with b show ?thesis by (intro conjI)
qed

text \<open>
  C6: for every list of \<open>N\<close> records and every configured batch size that is positive,
  with \<open>B\<close> the smaller of the configured size and 10, \<open>batchEntries\<close> returns, and
  what it returns are \<open>ceil(N / B)\<close> batches which, one after the other, are the list;
  every batch but the last has \<open>B\<close> records and the last has the remaining ones. No
  batch is empty or has more than 10 records.
\<close>

theorem batch_partition:
  assumes "0 < c"
  shows "\<exists>bs. batchEntries es (min c 10) = Some bs
     \<and> length bs = nat \<lceil>real (length es) / real_of_int (min c 10)\<rceil>
     \<and> concat bs = es
     \<and> (\<forall>k<length bs. length (bs ! k) =
           (if Suc k < length bs then nat (min c 10) else length es - k * nat (min c 10)))
     \<and> (\<forall>b \<in> set bs. b \<noteq> [] \<and> length b \<le> 10)"
proof -
  define b where "b = nat (min c 10)"
  have b: "0 < b" "int b = min c 10" "b \<le> 10" using assms by (auto simp: b_def)
  let ?bs = "chunks b es"
  let ?n = "(length es + b - 1) div b"
  have run: "batchEntries es (min c 10) = Some ?bs"
    using batchLoop_chunks [OF b(1), of es 0 "[]"] b(2) by (simp add: batchEntries_def)
  have len: "length ?bs = ?n" using b(1) by (rule length_chunks)
  have "real_of_int (min c 10) = real b" using b(2) by (metis of_int_of_nat_eq)
  then have ceil: "length ?bs = nat \<lceil>real (length es) / real_of_int (min c 10)\<rceil>"
    using len ceiling_as_div [OF b(1), of "length es"] by simp
  have cat: "concat ?bs = es" using b(1) by (rule concat_chunks)
  have nth: "length (?bs ! k) = min b (length es - k * b)" if "k < length ?bs" for k
    using nth_chunks [OF b(1) that] by (simp add: min.commute)
  have upper: "length es \<le> ?n * b"
  proof -
    have "length es + b - 1 = ?n * b + (length es + b - 1) mod b" by simp
    moreover have "(length es + b - 1) mod b < b" using b(1) by simp
    ultimately show ?thesis by linarith
  qed
  have sizes: "length (?bs ! k) = (if Suc k < length ?bs then b else length es - k * b)"
    if k: "k < length ?bs" for k
  proof (cases "Suc k < length ?bs")
    case True
    then have "Suc (Suc k) \<le> ?n" using len by simp
    then have "Suc (Suc k) * b \<le> ?n * b" by (rule mult_le_mono1)
    also have "\<dots> \<le> length es + b - 1" by simp
    finally have "Suc k * b + b \<le> length es + b - 1" by simp
    then have "Suc k * b < length es" using b(1) by linarith
    then have "b \<le> length es - k * b" by simp
    with True nth [OF k] show ?thesis by simp
  next
    case False
    with k have "Suc k = ?n" using len by simp
    with upper have "length es \<le> Suc k * b" by simp
    then have "length es - k * b \<le> b" by simp
    with False nth [OF k] show ?thesis by simp
  qed
  have each: "x \<noteq> [] \<and> length x \<le> 10" if "x \<in> set ?bs" for x
  proof -
    from that obtain k where k: "k < length ?bs" "x = ?bs ! k" by (auto simp: in_set_conv_nth)
    have "k * b < length es"
    proof -
      from k(1) len have "Suc k \<le> ?n" by simp
      then have "Suc k * b \<le> ?n * b" by (rule mult_le_mono1)
      also have "\<dots> \<le> length es + b - 1" by simp
      finally have "k * b + b \<le> length es + b - 1" by simp
      then show ?thesis using b(1) by linarith
    qed
    with nth [OF k(1)] k(2) b show ?thesis by auto
  qed
  from run ceil cat sizes each b(2) show ?thesis
    by (intro exI [of _ ?bs]) (simp add: b_def)
qed

theorem batch_partition_witness:
  "(0::int) < 25
   \<and> min (25::int) 10 = 10
   \<and> batchEntries [1, 2, 3, 4, 5, 6, 7, 8, 9, 10, 11, 12 :: nat] (min 25 10)
        = Some [[1, 2, 3, 4, 5, 6, 7, 8, 9, 10], [11, 12]]
   \<and> (\<exists>bs. batchEntries [1, 2, 3, 4, 5, 6, 7, 8, 9, 10, 11, 12 :: nat] (min 25 10) = Some bs
         \<and> length bs = nat \<lceil>real (length [1, 2, 3, 4, 5, 6, 7, 8, 9, 10, 11, 12 :: nat]) / real_of_int (min 25 10)\<rceil>
         \<and> concat bs = [1, 2, 3, 4, 5, 6, 7, 8, 9, 10, 11, 12])"
proof -
  have p: "(0::int) < 25" by simp
  have r: "batchEntries [1, 2, 3, 4, 5, 6, 7, 8, 9, 10, 11, 12 :: nat] (min 25 10)
        = Some [[1, 2, 3, 4, 5, 6, 7, 8, 9, 10], [11, 12]]"
    by code_simp
  from batch_partition [OF p, of "[1, 2, 3, 4, 5, 6, 7, 8, 9, 10, 11, 12 :: nat]"] p r
  show ?thesis by auto
qed

text \<open>
  C7, as amended: a batch whose submission ends in a thrown error (retries used up, a
  status that is not retried, or a request that fails) is counted as an error and handed
  to \<open>saveFailedBatch\<close> once, and the loop goes on with the next batch: after the
  whole delivery, sent batches and errors add up to the number of batches. When the
  failure file is missing or holds a list of records and the write succeeds, the file
  then holds the records it held, followed by one record with the time, the message
  of the error and the batch; over the whole delivery, with every write succeeding,
  the records that were in the file are still there, in front of one new record for
  each failed batch. When the file is there and cannot be read or is not a list,
  nothing is written and it stays as it is. Nothing is said of the file after a
  write that fails.
\<close>

theorem failed_batch_recorded:
  "(\<forall>err w1. sendMediaLogBatch fetch org repo ref dryRun 3 w = (Inl err, w1) \<longrightarrow>
       fst (deliverBatch fetch org repo ref dryRun numBatches index batch (st, w))
         = st\<lparr>errors := errors st + 1\<rparr>
       \<and> (failureFile w = Unusable \<longrightarrow>
             failureFile (snd (deliverBatch fetch org repo ref dryRun numBatches index batch (st, w)))
               = Unusable)
       \<and> (failureFile w \<noteq> Unusable \<and> \<not> writeFails w \<longrightarrow>
             failureFile (snd (deliverBatch fetch org repo ref dryRun numBatches index batch (st, w)))
               = Holds (recordsOf (failureFile w)
                          @ [\<lparr>timestamp = clock w, error = message err, entries = batch\<rparr>])))
   \<and> (\<forall>st' w'. deliver fetch org repo ref dryRun batches (st, w) = (st', w') \<longrightarrow>
         batchesSent st' + errors st' = batchesSent st + errors st + length batches
         \<and> (failureFile w = Unusable \<longrightarrow> failureFile w' = Unusable)
         \<and> (failureFile w \<noteq> Unusable \<and> \<not> writeFails w \<longrightarrow>
               (\<exists>new. recordsOf (failureFile w') = recordsOf (failureFile w) @ new
                  \<and> set (map entries new) \<subseteq> set batches
                  \<and> length new = errors st' - errors st)))"
proof (intro conjI allI impI)
  fix err w1
  assume s: "sendMediaLogBatch fetch org repo ref dryRun 3 w = (Inl err, w1)"
  note d = deliverBatch_failed [OF s, of numBatches index batch st]
  from d show "fst (deliverBatch fetch org repo ref dryRun numBatches index batch (st, w))
         = st\<lparr>errors := errors st + 1\<rparr>" by simp
  from d show "failureFile (snd (deliverBatch fetch org repo ref dryRun numBatches index batch (st, w)))
               = Unusable" if "failureFile w = Unusable"
    using that by (simp add: saveFailedBatch_file)
  from d show "failureFile (snd (deliverBatch fetch org repo ref dryRun numBatches index batch (st, w)))
               = Holds (recordsOf (failureFile w)
                          @ [\<lparr>timestamp = clock w, error = message err, entries = batch\<rparr>])"
    if "failureFile w \<noteq> Unusable \<and> \<not> writeFails w"
    using that by (simp add: saveFailedBatch_file)
next
  fix st' w'
  assume "deliver fetch org repo ref dryRun batches (st, w) = (st', w')"
  then have "deliverFrom fetch org repo ref dryRun (length batches) 0 batches (st, w) = (st', w')"
    by (simp add: deliver_def)
  note s = deliverFrom_summary [OF this]
  from s show "batchesSent st' + errors st' = batchesSent st + errors st + length batches" by simp
  from s show "failureFile w = Unusable \<Longrightarrow> failureFile w' = Unusable" by simp
  from s show "failureFile w \<noteq> Unusable \<and> \<not> writeFails w \<Longrightarrow>
               \<exists>new. recordsOf (failureFile w') = recordsOf (failureFile w) @ new
                  \<and> set (map entries new) \<subseteq> set batches
                  \<and> length new = errors st' - errors st"
    by blast
qed

theorem failed_batch_recorded_witness:
  "deliver (\<lambda>n url. Inr \<lparr>status = 500, body_text = ''boom'', json = None\<rparr>) ''o'' ''r'' ''main'' False
      [[1::nat, 2], [3]]
      (\<lparr>batchesSent = 0, errors = 0\<rparr>,
       \<lparr>requests = 0, sleeps = [],
         failureFile = Holds [\<lparr>timestamp = ''t0'', error = ''old'', entries = [0]\<rparr>],
         writeFails = False, fileAfterFailedWrite = Unusable, clock = ''t1''\<rparr>)
   = (\<lparr>batchesSent = 0, errors = 2\<rparr>,
      \<lparr>requests = 2, sleeps = [],
        failureFile = Holds [\<lparr>timestamp = ''t0'', error = ''old'', entries = [0]\<rparr>,
                             \<lparr>timestamp = ''t1'', error = ''Media log API error: 500 - boom'', entries = [1, 2]\<rparr>,
                             \<lparr>timestamp = ''t1'', error = ''Media log API error: 500 - boom'', entries = [3]\<rparr>],
        writeFails = False, fileAfterFailedWrite = Unusable, clock = ''t1''\<rparr>)
   \<and> (0::nat) + 2 = 0 + 0 + length [[1::nat, 2], [3]]
   \<and> sendMediaLogBatch (\<lambda>n url. Inr \<lparr>status = 500, body_text = ''boom'', json = None\<rparr>) ''o'' ''r'' ''main'' False 3
       \<lparr>requests = 0, sleeps = [],
         failureFile = Holds [\<lparr>timestamp = ''t0'', error = ''old'', entries = [0::nat]\<rparr>],
         writeFails = False, fileAfterFailedWrite = Unusable, clock = ''t1''\<rparr>
       = (Inl (Error ''Media log API error: 500 - boom''),
          \<lparr>requests = 1, sleeps = [],
            failureFile = Holds [\<lparr>timestamp = ''t0'', error = ''old'', entries = [0::nat]\<rparr>],
            writeFails = False, fileAfterFailedWrite = Unusable, clock = ''t1''\<rparr>)
   \<and> failureFile (snd (deliverBatch (\<lambda>n url. Inr \<lparr>status = 500, body_text = ''boom'', json = None\<rparr>)
         ''o'' ''r'' ''main'' False 2 0 [1, 2]
         (\<lparr>batchesSent = 0, errors = 0\<rparr>,
          \<lparr>requests = 0, sleeps = [],
            failureFile = Holds [\<lparr>timestamp = ''t0'', error = ''old'', entries = [0::nat]\<rparr>],
            writeFails = False, fileAfterFailedWrite = Unusable, clock = ''t1''\<rparr>)))
       = Holds [\<lparr>timestamp = ''t0'', error = ''old'', entries = [0]\<rparr>,
                \<lparr>timestamp = ''t1'', error = ''Media log API error: 500 - boom'', entries = [1, 2]\<rparr>]"
proof -
  let ?f = "\<lambda>(n::nat) (url::string). (Inr \<lparr>status = 500, body_text = ''boom'', json = None\<rparr> :: js_error + response)"
  let ?st = "\<lparr>batchesSent = 0, errors = 0\<rparr>"
  let ?w = "\<lparr>requests = 0, sleeps = [],
         failureFile = Holds [\<lparr>timestamp = ''t0'', error = ''old'', entries = [0::nat]\<rparr>],
         writeFails = False, fileAfterFailedWrite = Unusable, clock = ''t1''\<rparr>"
  let ?st' = "\<lparr>batchesSent = 0, errors = 2\<rparr>"
  let ?w' = "\<lparr>requests = 2, sleeps = [],
        failureFile = Holds [\<lparr>timestamp = ''t0'', error = ''old'', entries = [0::nat]\<rparr>,
                             \<lparr>timestamp = ''t1'', error = ''Media log API error: 500 - boom'', entries = [1, 2]\<rparr>,
                             \<lparr>timestamp = ''t1'', error = ''Media log API error: 500 - boom'', entries = [3]\<rparr>],
        writeFails = False, fileAfterFailedWrite = Unusable, clock = ''t1''\<rparr>"
  have run: "deliver ?f ''o'' ''r'' ''main'' False [[1::nat, 2], [3]] (?st, ?w) = (?st', ?w')"
    by code_simp
  have one: "sendMediaLogBatch ?f ''o'' ''r'' ''main'' False 3 ?w
       = (Inl (Error ''Media log API error: 500 - boom''),
          \<lparr>requests = 1, sleeps = [],
            failureFile = Holds [\<lparr>timestamp = ''t0'', error = ''old'', entries = [0::nat]\<rparr>],
            writeFails = False, fileAfterFailedWrite = Unusable, clock = ''t1''\<rparr>)"
    by code_simp
  have usable: "failureFile ?w \<noteq> Unusable \<and> \<not> writeFails ?w" by simp
  note inst = failed_batch_recorded [of ?f "''o''" "''r''" "''main''" False ?w 2 0 "[1, 2]" ?st "[[1::nat, 2], [3]]"]
  from inst run
  have total: "batchesSent ?st' + errors ?st' = batchesSent ?st + errors ?st + length [[1::nat, 2], [3]]"
    by blast
  from inst one usable
  have "failureFile (snd (deliverBatch ?f ''o'' ''r'' ''main'' False 2 0 [1, 2] (?st, ?w))) =
           Holds (recordsOf (failureFile ?w)
                    @ [\<lparr>timestamp = clock ?w, error = message (Error ''Media log API error: 500 - boom''),
                         entries = [1, 2]\<rparr>])"
    by blast
  then have saved: "failureFile (snd (deliverBatch ?f ''o'' ''r'' ''main'' False 2 0 [1, 2] (?st, ?w)))
       = Holds [\<lparr>timestamp = ''t0'', error = ''old'', entries = [0]\<rparr>,
                \<lparr>timestamp = ''t1'', error = ''Media log API error: 500 - boom'', entries = [1, 2]\<rparr>]"
    by (simp add: recordsOf_def)
  from run total one saved show ?thesis by simp
qed

text \<open>
  The claim C7 as it is worded fails in two runs, in each of which the one batch
  fails for good. In the first the failure file is there and is not a list of
  records: the batch is counted as an error and nothing is written. In the second the
  file holds one record and the write fails after it has emptied the file: the batch
  is counted as an error, no record of it is in the file, and the record that was
  there is gone.
\<close>

theorem failed_batch_counterexample:
  "deliver (\<lambda>n url. Inr \<lparr>status = 500, body_text = ''boom'', json = None\<rparr>) ''o'' ''r'' ''main'' False
      [[1::nat, 2]]
      (\<lparr>batchesSent = 0, errors = 0\<rparr>,
       \<lparr>requests = 0, sleeps = [], failureFile = Unusable, writeFails = False,
         fileAfterFailedWrite = Unusable, clock = ''t1''\<rparr>)
   = (\<lparr>batchesSent = 0, errors = 1\<rparr>,
      \<lparr>requests = 1, sleeps = [], failureFile = Unusable, writeFails = False,
        fileAfterFailedWrite = Unusable, clock = ''t1''\<rparr>)
   \<and> deliver (\<lambda>n url. Inr \<lparr>status = 500, body_text = ''boom'', json = None\<rparr>) ''o'' ''r'' ''main'' False
      [[1::nat, 2]]
      (\<lparr>batchesSent = 0, errors = 0\<rparr>,
       \<lparr>requests = 0, sleeps = [],
         failureFile = Holds [\<lparr>timestamp = ''t0'', error = ''old'', entries = [0]\<rparr>],
         writeFails = True, fileAfterFailedWrite = Unusable, clock = ''t1''\<rparr>)
   = (\<lparr>batchesSent = 0, errors = 1\<rparr>,
      \<lparr>requests = 1, sleeps = [], failureFile = Unusable, writeFails = True,
        fileAfterFailedWrite = Unusable, clock = ''t1''\<rparr>)"
  by code_simp

text \<open>
  C8: the markdown made of the line \<open>![Product shot](img/p1_abc123.png "Main")\<close> and the
  line \<open>[spec sheet](docs/spec.pdf)\<close>, extracted for the page \<open>/products/x\<close> of any
  organisation, repository and ref, gives exactly two records, in this order: one for
  \<open>img/p1_abc123.png\<close> with the alt text \<open>Main\<close> (the title, not the text in the brackets)
  and one for \<open>docs/spec.pdf\<close> without alt text. Both have as \<open>sourcePath\<close> the absolute
  url built from the ref, the repository, the organisation and \<open>/products/x\<close>.
\<close>

theorem extract_scenario:
  \<open>extractMediaReferences
     ''![Product shot](img/p1_abc123.png "Main")\<newline>[spec sheet](docs/spec.pdf)''
     ''/products/x'' org repo ref =
   [\<lparr> action = Some ''add'', path = ''img/p1_abc123.png'',
       sourcePath = Some (''https://'' @ ref @ ''--'' @ repo @ ''--'' @ org @ ''.aem.page/products/x''),
       alt = Some ''Main'', operation = None, user = None \<rparr>,
    \<lparr> action = Some ''add'', path = ''docs/spec.pdf'',
       sourcePath = Some (''https://'' @ ref @ ''--'' @ repo @ ''--'' @ org @ ''.aem.page/products/x''),
       alt = None, operation = None, user = None \<rparr>]\<close>
  by code_simp




text \<open>
  C10: deduplication and enrichment return one record for each record of their
  input, in the same order. A record returned by the deduplication agrees with the
  record at its position in the input on every field other than \<open>operation\<close>, the
  fields of other producers included; a record returned by the enrichment agrees
  with its input record on every field other than \<open>user\<close>.
\<close>

theorem passes_keep_other_fields:
  "length (deduplicatedEntries es) = length es
   \<and> list_all2 sameButOperation es (deduplicatedEntries es)
   \<and> (\<forall>idx. buildPreviewUserMap fetch org repo ref = Some (Inr idx) \<longrightarrow>
        (\<exists>out. enrichEntriesWithUser fetch es org repo ref fb = Some (Inr out)
           \<and> length out = length es \<and> list_all2 sameButUser es out))"
proof (intro conjI allI impI)
  have d: "list_all2 sameButOperation es (deduplicatedEntries es)"
    unfolding deduplicatedEntries_def by (rule dedup_sameBut)
  then show "length (deduplicatedEntries es) = length es" by (simp add: list_all2_lengthD)
  from d show "list_all2 sameButOperation es (deduplicatedEntries es)" .
next
  fix idx assume "buildPreviewUserMap fetch org repo ref = Some (Inr idx)"
  then have "enrichEntriesWithUser fetch es org repo ref fb = Some (Inr (map (enrichEntry idx fb) es))"
    by (rule enrich_returns)
  moreover have "list_all2 sameButUser es (map (enrichEntry idx fb) es)"
    by (simp add: list_all2_conv_all_nth enrichEntry_sameButUser)
  ultimately show "\<exists>out. enrichEntriesWithUser fetch es org repo ref fb = Some (Inr out)
           \<and> length out = length es \<and> list_all2 sameButUser es out"
    by (intro exI [of _ "map (enrichEntry idx fb) es"]) simp
qed

theorem passes_keep_other_fields_witness:
  "buildPreviewUserMap (\<lambda>n url. Inl (Error ''offline'')) ''o'' ''r'' ''main'' = Some (Inr Map.empty)
   \<and> (\<exists>out. enrichEntriesWithUser (\<lambda>n url. Inl (Error ''offline''))
          [mediaEntry ''https://main--r--o.aem.page/p'' ''media_ab12.png'' ''A'',
           mediaEntry ''https://main--r--o.aem.page/q'' ''media_ab12.png'' ''B'']
          ''o'' ''r'' ''main'' (Some ''bot'') = Some (Inr out)
        \<and> length out = 2
        \<and> list_all2 sameButUser
             [mediaEntry ''https://main--r--o.aem.page/p'' ''media_ab12.png'' ''A'',
              mediaEntry ''https://main--r--o.aem.page/q'' ''media_ab12.png'' ''B''] out)
   \<and> list_all2 sameButOperation
        [mediaEntry ''https://main--r--o.aem.page/p'' ''media_ab12.png'' ''A'',
         mediaEntry ''https://main--r--o.aem.page/q'' ''media_ab12.png'' ''B'']
        (deduplicatedEntries
          [mediaEntry ''https://main--r--o.aem.page/p'' ''media_ab12.png'' ''A'',
           mediaEntry ''https://main--r--o.aem.page/q'' ''media_ab12.png'' ''B''])"
proof -
  let ?f = "\<lambda>(n::nat) (url::string). (Inl (Error ''offline'') :: js_error + response)"
  let ?es = "[mediaEntry ''https://main--r--o.aem.page/p'' ''media_ab12.png'' ''A'',
              mediaEntry ''https://main--r--o.aem.page/q'' ''media_ab12.png'' ''B'']"
  have b: "buildPreviewUserMap ?f ''o'' ''r'' ''main'' = Some (Inr Map.empty)"
    unfolding buildPreviewUserMap_def by (subst fetchPages.simps) simp
  have l: "length ?es = 2" by simp
  note inst = passes_keep_other_fields [of ?es ?f "''o''" "''r''" "''main''" "Some ''bot''"]
  from inst have d: "list_all2 sameButOperation ?es (deduplicatedEntries ?es)" by blast
  from inst b obtain out where
    "enrichEntriesWithUser ?f ?es ''o'' ''r'' ''main'' (Some ''bot'') = Some (Inr out)"
    "length out = length ?es" "list_all2 sameButUser ?es out" by blast
  with l have "\<exists>out. enrichEntriesWithUser ?f ?es ''o'' ''r'' ''main'' (Some ''bot'') = Some (Inr out)
        \<and> length out = 2 \<and> list_all2 sameButUser ?es out" by metis
  with b d show ?thesis by blast
qed

end
